theory Spec2Isabelle
  imports Complex_Main "HOL-Library.Sublist" "HOL-Library.Log_Nat"
begin

section \<open>Text cells\<close>

text \<open>
  The CSV is read with \<^verbatim>\<open>pd.read_csv(path, dtype=str)\<close>: a cell is either a
  Python \<^verbatim>\<open>str\<close> or the missing marker (NaN), for which \<^verbatim>\<open>pd.isna\<close> is true.
  A cell is a \<^typ>\<open>string option\<close>, \<^term>\<open>None\<close> being the missing marker.

  A \<^typ>\<open>char\<close> is a code point from 0 to 255 (Latin-1); text with code points beyond
  that is outside the model. On these code points \<^verbatim>\<open>str.isspace\<close> holds of 9 to 13,
  28 to 32, 133 and 160, and \<^verbatim>\<open>str.lower\<close> moves \<^verbatim>\<open>A\<close> to \<^verbatim>\<open>Z\<close> (65 to 90) and the
  accented capitals (192 to 222 except 215) up by 32.
\<close>

type_synonym cell = "string option"

definition is_space :: "char \<Rightarrow> bool" where
  "is_space c =
     (let n = (of_char c :: int)
      in (9 \<le> n \<and> n \<le> 13) \<or> (28 \<le> n \<and> n \<le> 32) \<or> n = 133 \<or> n = 160)"

definition lower_char :: "char \<Rightarrow> char" where
  "lower_char c =
     (let n = (of_char c :: int)
      in if (65 \<le> n \<and> n \<le> 90) \<or> (192 \<le> n \<and> n \<le> 222 \<and> n \<noteq> 215)
         then char_of (n + 32) else c)"

text \<open>\<^verbatim>\<open>s.strip()\<close>: leading and trailing white space removed.\<close>

definition strip :: "string \<Rightarrow> string" where
  "strip s = rev (dropWhile is_space (rev (dropWhile is_space s)))"

text \<open>\<^verbatim>\<open>s.lower()\<close>\<close>

definition lower :: "string \<Rightarrow> string" where
  "lower s = map lower_char s"

text \<open>\<^verbatim>\<open>k in s\<close> on strings: \<open>k\<close> occurs in \<open>s\<close> as a contiguous run.\<close>

fun str_contains :: "string \<Rightarrow> string \<Rightarrow> bool" where
  "str_contains k [] = (k = [])"
| "str_contains k (c # cs) = (prefix k (c # cs) \<or> str_contains k cs)"

section \<open>Status classifier\<close>

text \<open>
  \<^verbatim>\<open>
  ACTIVE_KEYS = ["active", "coming soon", "back on market", "a/"]
  PENDING_KEYS = ["pending", "under contract", "a/i", "accepting backup"]
  SOLD_KEYS = ["closed", "sold"]

  def bucket_status(s: str) -> str:
      if pd.isna(s):
          return "Unknown"
      s = str(s).strip().lower()
      if any(k in s for k in ACTIVE_KEYS) and not any(k in s for k in ["under contract", "pending"]):
          return "Active"
      if any(k in s for k in PENDING_KEYS):
          return "Pending"
      if any(k in s for k in SOLD_KEYS):
          return "Sold"
      if s == "active":
          return "Active"
      return "Other"
  \<close>
  The five result strings are the constructors of \<open>bucket\<close>.
\<close>

datatype bucket = Active | Pending | Sold | Other | Unknown

definition ACTIVE_KEYS :: "string list" where
  "ACTIVE_KEYS = [''active'', ''coming soon'', ''back on market'', ''a/'']"

definition PENDING_KEYS :: "string list" where
  "PENDING_KEYS = [''pending'', ''under contract'', ''a/i'', ''accepting backup'']"

definition SOLD_KEYS :: "string list" where
  "SOLD_KEYS = [''closed'', ''sold'']"

text \<open>\<^verbatim>\<open>any(k in s for k in keys)\<close>\<close>

definition any_in :: "string list \<Rightarrow> string \<Rightarrow> bool" where
  "any_in keys s = list_ex (\<lambda>k. str_contains k s) keys"

definition bucket_of :: "string \<Rightarrow> bucket" where
  "bucket_of s =
     (if any_in ACTIVE_KEYS s \<and> \<not> any_in [''under contract'', ''pending''] s then Active
      else if any_in PENDING_KEYS s then Pending
      else if any_in SOLD_KEYS s then Sold
      else if s = ''active'' then Active
      else Other)"

definition bucket_status :: "cell \<Rightarrow> bucket" where
  "bucket_status x =
     (case x of
        None \<Rightarrow> Unknown
      | Some raw \<Rightarrow> bucket_of (lower (strip raw)))"

section \<open>Floating-point values\<close>

text \<open>
  A Python \<^verbatim>\<open>float\<close> is an IEEE binary64 number: \<open>NaN\<close> (the missing marker
  \<^verbatim>\<open>np.nan\<close>), an infinity, or a finite number, kept as the rational it is. The sign
  of zero is not kept. Every operation computes the exact result and rounds it to the
  nearest binary64 number, ties to the even significand (\<open>round64\<close>).
\<close>

datatype error = ValueError | OverflowError | ZeroDivisionError

datatype pyfloat = NaN | Fin rat | PInf | NInf

fun is_nan :: "pyfloat \<Rightarrow> bool" where
  "is_nan NaN = True"
| "is_nan _ = False"

text \<open>For \<open>q > 0\<close>, the exponent \<open>e\<close> with \<open>2\<^sup>e \<le> q < 2\<^sup>e\<^sup>+\<^sup>1\<close>.\<close>

definition floorlog2 :: "rat \<Rightarrow> int" where
  "floorlog2 q =
     (case quotient_of q of (n, d) \<Rightarrow>
        let k = bitlen n - bitlen d in if 2 powi k \<le> q then k else k - 1)"

text \<open>The nearest integer, a tie going to the even one.\<close>

definition round_half_even :: "rat \<Rightarrow> int" where
  "round_half_even x =
     (let f = \<lfloor>x\<rfloor>; r = x - of_int f
      in if r < 1 / 2 then f else if 1 / 2 < r then f + 1 else if even f then f else f + 1)"

text \<open>
  Rounding to binary64: 53 significant bits, the exponent not below \<open>-1022\<close> (below it
  the numbers are subnormal, spaced \<open>2\<^sup>-\<^sup>1\<^sup>0\<^sup>7\<^sup>4\<close> apart), and an infinity when the rounded
  magnitude reaches \<open>2\<^sup>1\<^sup>0\<^sup>2\<^sup>4\<close>.
\<close>

definition round64 :: "rat \<Rightarrow> pyfloat" where
  "round64 q =
     (if q = 0 then Fin 0
      else
        let a = \<bar>q\<bar>;
            e = max (floorlog2 a) (- 1022) - 52;
            v = of_int (round_half_even (a / 2 powi e)) * 2 powi e
        in if 2 ^ 1024 \<le> v then (if q < 0 then NInf else PInf)
           else Fin (if q < 0 then - v else v))"

text \<open>\<^verbatim>\<open>a - b\<close> and \<^verbatim>\<open>a + b\<close> on floats.\<close>

fun fsub :: "pyfloat \<Rightarrow> pyfloat \<Rightarrow> pyfloat" where
  "fsub NaN b = NaN"
| "fsub a NaN = NaN"
| "fsub (Fin a) (Fin b) = round64 (a - b)"
| "fsub (Fin a) PInf = NInf"
| "fsub (Fin a) NInf = PInf"
| "fsub PInf PInf = NaN"
| "fsub PInf b = PInf"
| "fsub NInf NInf = NaN"
| "fsub NInf b = NInf"

fun fadd :: "pyfloat \<Rightarrow> pyfloat \<Rightarrow> pyfloat" where
  "fadd NaN b = NaN"
| "fadd a NaN = NaN"
| "fadd (Fin a) (Fin b) = round64 (a + b)"
| "fadd (Fin a) PInf = PInf"
| "fadd (Fin a) NInf = NInf"
| "fadd PInf NInf = NaN"
| "fadd PInf b = PInf"
| "fadd NInf PInf = NaN"
| "fadd NInf b = NInf"

text \<open>
  \<^verbatim>\<open>a / b\<close> on floats: Python raises \<^verbatim>\<open>ZeroDivisionError\<close> when \<open>b\<close> is zero, whatever
  \<open>a\<close> is; otherwise the IEEE quotient.
\<close>

fun truediv :: "pyfloat \<Rightarrow> pyfloat \<Rightarrow> error + pyfloat" where
  "truediv a (Fin b) =
     (if b = 0 then Inl ZeroDivisionError
      else Inr (case a of
                  NaN \<Rightarrow> NaN
                | Fin x \<Rightarrow> round64 (x / b)
                | PInf \<Rightarrow> (if b < 0 then NInf else PInf)
                | NInf \<Rightarrow> (if b < 0 then PInf else NInf)))"
| "truediv a NaN = Inr NaN"
| "truediv (Fin x) b = Inr (Fin 0)"
| "truediv a b = Inr NaN"

text \<open>
  An \<^verbatim>\<open>int\<close> operand of a float operation is converted first, rounding to nearest;
  the conversion raises \<^verbatim>\<open>OverflowError\<close> when the integer is beyond the finite floats.
\<close>

definition int_to_float :: "int \<Rightarrow> error + pyfloat" where
  "int_to_float n =
     (case round64 (of_int n) of
        Fin v \<Rightarrow> Inr (Fin v)
      | _ \<Rightarrow> Inl OverflowError)"

text \<open>IEEE comparisons \<^verbatim>\<open>a <= b\<close> and \<^verbatim>\<open>a < b\<close>: false as soon as one side is NaN.\<close>

fun fle :: "pyfloat \<Rightarrow> pyfloat \<Rightarrow> bool" where
  "fle NaN b = False"
| "fle a NaN = False"
| "fle NInf b = True"
| "fle a PInf = True"
| "fle (Fin a) (Fin b) = (a \<le> b)"
| "fle PInf b = False"
| "fle (Fin a) NInf = False"

fun flt :: "pyfloat \<Rightarrow> pyfloat \<Rightarrow> bool" where
  "flt NaN b = False"
| "flt a NaN = False"
| "flt (Fin a) (Fin b) = (a < b)"
| "flt PInf b = False"
| "flt a NInf = False"
| "flt a b = True"

section \<open>Field normalizer\<close>

definition is_digit :: "char \<Rightarrow> bool" where
  "is_digit c = (let n = (of_char c :: int) in 48 \<le> n \<and> n \<le> 57)"

definition digits_val :: "string \<Rightarrow> int" where
  "digits_val ds = foldl (\<lambda>acc c. 10 * acc + (of_char c - 48)) 0 ds"

text \<open>\<^verbatim>\<open>s.replace(c, "")\<close> for a one-character \<open>c\<close>.\<close>

definition remove_char :: "char \<Rightarrow> string \<Rightarrow> string" where
  "remove_char c s = filter (\<lambda>d. d \<noteq> c) s"

text \<open>
  The builtin \<^verbatim>\<open>float(s)\<close> on a string, after the grammar of the Python language
  reference. White space around the text is dropped: the ASCII white space 9 to 13 and
  32, and the white space beyond ASCII (133 and 160), but not 28 to 31. An underscore is
  accepted only between two digits. Then comes an optional sign, and either \<^verbatim>\<open>inf\<close>,
  \<^verbatim>\<open>infinity\<close>, \<^verbatim>\<open>nan\<close> in any case, or digits with an optional point and an optional
  exponent, at least one digit before or after the point; the decimal number is rounded
  to the nearest float. Anything else raises \<^verbatim>\<open>ValueError\<close>.
\<close>

definition float_space :: "char \<Rightarrow> bool" where
  "float_space c =
     (let n = (of_char c :: int) in (9 \<le> n \<and> n \<le> 13) \<or> n = 32 \<or> n = 133 \<or> n = 160)"

definition float_strip :: "string \<Rightarrow> string" where
  "float_strip s = rev (dropWhile float_space (rev (dropWhile float_space s)))"

fun underscores_ok :: "char \<Rightarrow> string \<Rightarrow> bool" where
  "underscores_ok prev [] = (prev \<noteq> CHR ''_'')"
| "underscores_ok prev (c # cs) =
     ((if c = CHR ''_'' then is_digit prev
       else if prev = CHR ''_'' then is_digit c else True)
      \<and> underscores_ok c cs)"

definition split_sign :: "string \<Rightarrow> bool \<times> string" where
  "split_sign s =
     (case s of
        [] \<Rightarrow> (False, [])
      | c # cs \<Rightarrow> if c = CHR ''-'' then (True, cs) else if c = CHR ''+'' then (False, cs) else (False, s))"

definition parse_exponent :: "string \<Rightarrow> int option" where
  "parse_exponent s =
     (case s of
        [] \<Rightarrow> Some 0
      | c # cs \<Rightarrow>
          if c = CHR ''e'' \<or> c = CHR ''E'' then
            (case split_sign cs of (neg, ds) \<Rightarrow>
               if ds \<noteq> [] \<and> list_all is_digit ds
               then Some (if neg then - digits_val ds else digits_val ds)
               else None)
          else None)"

text \<open>What the text denotes: an infinity, NaN, or \<open>\<plusminus> m \<sqdot> 10\<^sup>e\<close>.\<close>

datatype literal = LitInf bool | LitNan | LitDec bool int int

definition scan_float :: "string \<Rightarrow> literal option" where
  "scan_float s =
     (case split_sign s of (neg, r) \<Rightarrow>
        if lower r = ''inf'' \<or> lower r = ''infinity'' then Some (LitInf neg)
        else if lower r = ''nan'' then Some LitNan
        else
          let ip = takeWhile is_digit r;
              r1 = dropWhile is_digit r;
              has_dot = (case r1 of [] \<Rightarrow> False | c # cs \<Rightarrow> c = CHR ''.'');
              fp = (if has_dot then takeWhile is_digit (tl r1) else []);
              r2 = (if has_dot then dropWhile is_digit (tl r1) else r1)
          in if ip = [] \<and> fp = [] then None
             else
               (case parse_exponent r2 of
                  None \<Rightarrow> None
                | Some e \<Rightarrow> Some (LitDec neg (digits_val (ip @ fp)) (e - int (length fp)))))"

definition scale10 :: "int \<Rightarrow> int \<Rightarrow> rat" where
  "scale10 m e = (if 0 \<le> e then of_int m * 10 ^ nat e else of_int m / 10 ^ nat (- e))"

fun float_value :: "literal \<Rightarrow> pyfloat" where
  "float_value (LitInf neg) = (if neg then NInf else PInf)"
| "float_value LitNan = NaN"
| "float_value (LitDec neg m e) = round64 (if neg then - scale10 m e else scale10 m e)"

definition py_float :: "string \<Rightarrow> error + pyfloat" where
  "py_float s =
     (let t = float_strip s
      in if underscores_ok (CHR 0x00) t
         then (case scan_float (remove_char (CHR ''_'') t) of
                 None \<Rightarrow> Inl ValueError
               | Some l \<Rightarrow> Inr (float_value l))
         else Inl ValueError)"

text \<open>
  \<^verbatim>\<open>
  def to_num(x):
      if pd.isna(x):
          return np.nan
      s = str(x).replace("$", "").replace(",", "").strip()
      try:
          return float(s)
      except Exception:
          return np.nan
  \<close>
\<close>

definition clean :: "string \<Rightarrow> string" where
  "clean raw = strip (remove_char (CHR '','') (remove_char (CHR ''$'') raw))"

definition to_num :: "cell \<Rightarrow> pyfloat" where
  "to_num x =
     (case x of
        None \<Rightarrow> NaN
      | Some raw \<Rightarrow> (case py_float (clean raw) of Inl e \<Rightarrow> NaN | Inr v \<Rightarrow> v))"

section \<open>Rows and derived columns\<close>

text \<open>
  One row of the export. The columns \<^verbatim>\<open>Mls Status\<close>, \<^verbatim>\<open>List Price\<close>,
  \<^verbatim>\<open>Close Price\<close> and \<^verbatim>\<open>Seller Concessions\<close> are text cells. \<open>close_date\<close> is
  what \<^verbatim>\<open>pd.to_datetime(df["Close Date"], errors="coerce")\<close> makes of the
  \<^verbatim>\<open>Close Date\<close> cell: an instant, or \<open>None\<close> for \<^verbatim>\<open>NaT\<close>. An instant is a count
  of nanoseconds since \<^verbatim>\<open>datetime.min\<close> (0001-01-01 00:00).

  A frame is the rows and whether the \<^verbatim>\<open>Seller Concessions\<close> column is there;
  when it is not, the \<open>seller_concessions\<close> of a row is never read.
\<close>

type_synonym instant = int

record row =
  mls_status :: cell
  close_date :: "instant option"
  list_price :: cell
  close_price :: cell
  seller_concessions :: cell

record frame =
  frame_rows :: "row list"
  has_concessions :: bool

text \<open>
  \<^verbatim>\<open>
  df["_bucket"] = df["Mls Status"].apply(bucket_status)
  df["_close_date"] = pd.to_datetime(df["Close Date"], errors="coerce", ...)
  df["_list_price"] = df["List Price"].apply(to_num)
  df["_close_price"] = df["Close Price"].apply(to_num)
  df["_concessions"] = df["Seller Concessions"].apply(to_num) if has_concessions else 0.0
  \<close>
\<close>

record prepared =
  c_bucket :: bucket
  c_close_date :: "instant option"
  c_list_price :: pyfloat
  c_close_price :: pyfloat
  c_concessions :: pyfloat

definition prep :: "bool \<Rightarrow> row \<Rightarrow> prepared" where
  "prep has r =
     \<lparr> c_bucket = bucket_status (mls_status r),
       c_close_date = close_date r,
       c_list_price = to_num (list_price r),
       c_close_price = to_num (close_price r),
       c_concessions = (if has then to_num (seller_concessions r) else Fin 0) \<rparr>"

section \<open>Window filter\<close>

text \<open>
  \<^verbatim>\<open>
  today = datetime.today()
  window_start = today - timedelta(days=days)
  is_sold_window = (df["_bucket"] == "Sold") & (df["_close_date"] >= window_start)
  \<close>
  \<^verbatim>\<open>timedelta(days=d)\<close> raises \<^verbatim>\<open>OverflowError\<close> beyond 999999999 days either way,
  and so does the subtraction when the result leaves the years 1 to 9999
  (3652059 days from \<^verbatim>\<open>datetime.min\<close>). A comparison with \<^verbatim>\<open>NaT\<close> is false.
\<close>

definition DAY :: int where
  "DAY = 86400 * 1000000000"

definition window_start :: "instant \<Rightarrow> int \<Rightarrow> error + instant" where
  "window_start today days =
     (if days < - 999999999 \<or> 999999999 < days then Inl OverflowError
      else let t = today - days * DAY
           in if 0 \<le> t \<and> t < 3652059 * DAY then Inr t else Inl OverflowError)"

definition is_sold_window :: "instant \<Rightarrow> prepared \<Rightarrow> bool" where
  "is_sold_window ws p =
     (c_bucket p = Sold \<and> (case c_close_date p of None \<Rightarrow> False | Some d \<Rightarrow> ws \<le> d))"

section \<open>Metrics\<close>

text \<open>\<^verbatim>\<open>df["_close_price"] - (df["_concessions"] if has_concessions else 0)\<close>, row by row.\<close>

definition net_price :: "bool \<Rightarrow> prepared \<Rightarrow> pyfloat" where
  "net_price has p = fsub (c_close_price p) (if has then c_concessions p else Fin 0)"

text \<open>\<^verbatim>\<open>Series.dropna()\<close>, \<^verbatim>\<open>Series.min()\<close> and \<^verbatim>\<open>Series.max()\<close> on a float column.\<close>

definition dropna :: "pyfloat list \<Rightarrow> pyfloat list" where
  "dropna xs = filter (\<lambda>v. \<not> is_nan v) xs"

definition fmin :: "pyfloat \<Rightarrow> pyfloat \<Rightarrow> pyfloat" where
  "fmin a b = (if fle a b then a else b)"

definition fmax :: "pyfloat \<Rightarrow> pyfloat \<Rightarrow> pyfloat" where
  "fmax a b = (if fle a b then b else a)"

fun series_min :: "pyfloat list \<Rightarrow> pyfloat" where
  "series_min [] = NaN"
| "series_min (x # xs) = fold fmin xs x"

fun series_max :: "pyfloat list \<Rightarrow> pyfloat" where
  "series_max [] = NaN"
| "series_max (x # xs) = fold fmax xs x"

text \<open>
  The numbers the report is written from, in \<^verbatim>\<open>main\<close> (momentum\_report.py) and in
  \<^verbatim>\<open>build_docx\<close> (app.py), which compute them with the same statements:
  \<^verbatim>\<open>
  active_count = int((df["_bucket"] == "Active").sum())
  pending_count = int((df["_bucket"] == "Pending").sum())
  sold_window_count = int(is_sold_window.sum())
  den = (sold_window_count / 3.0) + pending_count
  moi = (active_count / den) if den > 0 else np.nan
  active_prices = df.loc[df["_bucket"] == "Active", "_list_price"].dropna()
  pending_prices = df.loc[df["_bucket"] == "Pending", "_list_price"].dropna()
  net_price = df["_close_price"] - (df["_concessions"] if has_concessions else 0)
  sold_net_prices = net_price.loc[is_sold_window].dropna()
  active_min = float(active_prices.min()) if not active_prices.empty else np.nan
  ...
  \<close>
  \<open>today\<close> is the value of \<^verbatim>\<open>datetime.today()\<close>, read once. The counts are Python
  integers; \<open>den\<close> and \<open>moi\<close> are computed in floats, each operation rounding.
\<close>

record stats =
  active_count :: int
  pending_count :: int
  sold_window_count :: int
  moi :: pyfloat
  active_min :: pyfloat
  active_max :: pyfloat
  pending_min :: pyfloat
  pending_max :: pyfloat
  sold_net_min :: pyfloat
  sold_net_max :: pyfloat

text \<open>\<^verbatim>\<open>den = (sold_window_count / 3.0) + pending_count\<close>\<close>

definition den_of :: "int \<Rightarrow> int \<Rightarrow> error + pyfloat" where
  "den_of sold pending =
     (case int_to_float sold of
        Inl e \<Rightarrow> Inl e
      | Inr s \<Rightarrow>
          (case truediv s (Fin 3) of
             Inl e \<Rightarrow> Inl e
           | Inr x \<Rightarrow>
               (case int_to_float pending of
                  Inl e \<Rightarrow> Inl e
                | Inr p \<Rightarrow> Inr (fadd x p))))"

text \<open>\<^verbatim>\<open>moi = (active_count / den) if den > 0 else np.nan\<close>\<close>

definition moi_of :: "int \<Rightarrow> pyfloat \<Rightarrow> error + pyfloat" where
  "moi_of active den =
     (if flt (Fin 0) den
      then (case int_to_float active of
              Inl e \<Rightarrow> Inl e
            | Inr a \<Rightarrow> truediv a den)
      else Inr NaN)"

definition build_docx :: "frame \<Rightarrow> int \<Rightarrow> instant \<Rightarrow> error + stats" where
  "build_docx df days today =
     (let has = has_concessions df;
          ps = map (prep has) (frame_rows df)
      in case window_start today days of
           Inl e \<Rightarrow> Inl e
         | Inr ws \<Rightarrow>
             let active = int (length (filter (\<lambda>p. c_bucket p = Active) ps));
                 pending = int (length (filter (\<lambda>p. c_bucket p = Pending) ps));
                 sold = int (length (filter (is_sold_window ws) ps))
             in case den_of sold pending of
                  Inl e \<Rightarrow> Inl e
                | Inr den \<Rightarrow>
                    (case moi_of active den of
                       Inl e \<Rightarrow> Inl e
                     | Inr m \<Rightarrow>
                         let active_prices =
                               dropna (map c_list_price (filter (\<lambda>p. c_bucket p = Active) ps));
                             pending_prices =
                               dropna (map c_list_price (filter (\<lambda>p. c_bucket p = Pending) ps));
                             sold_net_prices =
                               dropna (map (net_price has) (filter (is_sold_window ws) ps))
                         in Inr \<lparr> active_count = active,
                                  pending_count = pending,
                                  sold_window_count = sold,
                                  moi = m,
                                  active_min = (if active_prices \<noteq> [] then series_min active_prices else NaN),
                                  active_max = (if active_prices \<noteq> [] then series_max active_prices else NaN),
                                  pending_min = (if pending_prices \<noteq> [] then series_min pending_prices else NaN),
                                  pending_max = (if pending_prices \<noteq> [] then series_max pending_prices else NaN),
                                  sold_net_min = (if sold_net_prices \<noteq> [] then series_min sold_net_prices else NaN),
                                  sold_net_max = (if sold_net_prices \<noteq> [] then series_max sold_net_prices else NaN) \<rparr>))"

section \<open>Reference definitions\<close>

text \<open>
  The classifier with its fifth rule (\<^verbatim>\<open>if s == "active": return "Active"\<close>) taken out,
  to compare with \<open>bucket_status\<close>.
\<close>

definition bucket_of_without_rule5 :: "string \<Rightarrow> bucket" where
  "bucket_of_without_rule5 s =
     (if any_in ACTIVE_KEYS s \<and> \<not> any_in [''under contract'', ''pending''] s then Active
      else if any_in PENDING_KEYS s then Pending
      else if any_in SOLD_KEYS s then Sold
      else Other)"

definition bucket_status_without_rule5 :: "cell \<Rightarrow> bucket" where
  "bucket_status_without_rule5 x =
     (case x of
        None \<Rightarrow> Unknown
      | Some raw \<Rightarrow> bucket_of_without_rule5 (lower (strip raw)))"

text \<open>
  The range of the plain close prices over the rows in the sold window, missing values
  left out: the pair of the smallest and the largest, or a pair of NaN when there is none.
\<close>

definition close_price_range :: "instant \<Rightarrow> prepared list \<Rightarrow> pyfloat \<times> pyfloat" where
  "close_price_range ws ps =
     (let xs = dropna (map c_close_price (filter (is_sold_window ws) ps))
      in if xs \<noteq> [] then (series_min xs, series_max xs) else (NaN, NaN))"



section \<open>A worked dataset\<close>

text \<open>
  Three rows: an active listing at 300000, a pending one at 250000, and a sale closed
  ten days before day 739000 at 280000 with 5000 of concessions.
\<close>

definition scenario_rows :: "row list" where
  "scenario_rows =
     [\<lparr> mls_status = Some ''Active'', close_date = None, list_price = Some ''300000'',
        close_price = None, seller_concessions = None \<rparr>,
      \<lparr> mls_status = Some ''Pending'', close_date = None, list_price = Some ''250000'',
        close_price = None, seller_concessions = None \<rparr>,
      \<lparr> mls_status = Some ''Closed'', close_date = Some (738990 * DAY), list_price = None,
        close_price = Some ''280000'', seller_concessions = Some ''5000'' \<rparr>]"

text \<open>The numbers expected for it, with a window of 90 days on day 739000.\<close>

definition scenario_stats :: stats where
  "scenario_stats =
     \<lparr> active_count = 1, pending_count = 1, sold_window_count = 1, moi = Fin (3 / 4),
       active_min = Fin 300000, active_max = Fin 300000,
       pending_min = Fin 250000, pending_max = Fin 250000,
       sold_net_min = Fin 275000, sold_net_max = Fin 275000 \<rparr>"

text \<open>A sold row with a given close date.\<close>

definition sold_at :: "instant option \<Rightarrow> prepared" where
  "sold_at d =
     \<lparr> c_bucket = Sold, c_close_date = d, c_list_price = NaN,
       c_close_price = Fin 280000, c_concessions = Fin 0 \<rparr>"

text \<open>
  A second dataset, where the rounding shows: one active listing, one pending, and five
  sales closed in the window, with no prices. Its months of inventory are
  \<open>1 / (5 / 3.0 + 1)\<close>, which in floats is \<open>0.37499999999999994\<close> and not \<open>3/8\<close>.
\<close>

definition status_row :: "string \<Rightarrow> instant option \<Rightarrow> row" where
  "status_row s d =
     \<lparr> mls_status = Some s, close_date = d, list_price = None,
       close_price = None, seller_concessions = None \<rparr>"

definition rounding_rows :: "row list" where
  "rounding_rows =
     status_row ''Active'' None # status_row ''Pending'' None
     # replicate 5 (status_row ''Closed'' (Some (738990 * DAY)))"

definition rounding_stats :: stats where
  "rounding_stats =
     \<lparr> active_count = 1, pending_count = 1, sold_window_count = 5,
       moi = Fin (6755399441055743 / 18014398509481984),
       active_min = NaN, active_max = NaN, pending_min = NaN, pending_max = NaN,
       sold_net_min = NaN, sold_net_max = NaN \<rparr>"

section \<open>Substrings, trimming and case\<close>

lemma str_contains_sublist: "str_contains k s = sublist k s"
  by (induction s) (auto simp: sublist_Cons_right)

lemma is_space_lower_char: "is_space (lower_char c) = is_space c"
  by (auto simp: is_space_def lower_char_def Let_def)

lemma lower_strip: "lower (strip s) = strip (lower s)"
proof -
  have comp: "is_space \<circ> lower_char = is_space"
    by (rule ext) (simp add: is_space_lower_char)
  show ?thesis
    by (simp add: lower_def strip_def rev_map dropWhile_map comp)
qed

lemma dropWhile_keeps_run:
  assumes "k \<noteq> []" and "\<not> P (hd k)"
  shows "\<exists>p'. dropWhile P (p @ k @ q) = p' @ k @ q"
proof (induction p)
  case Nil
  from assms have "dropWhile P (k @ q) = k @ q"
    by (cases k) auto
  then show ?case by (intro exI [of _ "[]"]) simp
next
  case (Cons a p)
  show ?case
  proof (cases "P a")
    case True
    with Cons show ?thesis by simp
  next
    case False
    then show ?thesis by (intro exI [of _ "a # p"]) simp
  qed
qed

lemma sublist_dropWhile_keep:
  assumes "sublist k t" and "k \<noteq> []" and "\<not> P (hd k)"
  shows "sublist k (dropWhile P t)"
proof -
  from assms(1) obtain p q where "t = p @ k @ q"
    by (auto simp: sublist_def)
  moreover from assms(2,3) obtain p' where "dropWhile P (p @ k @ q) = p' @ k @ q"
    using dropWhile_keeps_run [of k P p q] by blast
  ultimately show ?thesis
    by (auto simp: sublist_def)
qed

text \<open>A key that neither starts nor ends with white space survives trimming.\<close>

lemma sublist_strip_keep:
  assumes "sublist k t" and "k \<noteq> []" and "\<not> is_space (hd k)" and "\<not> is_space (last k)"
  shows "sublist k (strip t)"
proof -
  have "sublist k (dropWhile is_space t)"
    using assms by (intro sublist_dropWhile_keep)
  then have "sublist (rev k) (rev (dropWhile is_space t))"
    by simp
  moreover have "rev k \<noteq> []" "\<not> is_space (hd (rev k))"
    using assms by (simp_all add: hd_rev)
  ultimately have "sublist (rev k) (dropWhile is_space (rev (dropWhile is_space t)))"
    by (intro sublist_dropWhile_keep)
  then show ?thesis
    unfolding strip_def by (simp add: sublist_rev_left)
qed

lemma sublist_strip: "sublist (strip t) t"
proof -
  have "sublist (rev (strip t)) (rev (dropWhile is_space t))"
    unfolding strip_def by simp
  then have "sublist (strip t) (dropWhile is_space t)"
    by simp
  also have "sublist \<dots> t" by simp
  finally show ?thesis .
qed

lemma contains_norm_keep:
  assumes "str_contains k (lower s)" and "k \<noteq> []"
    and "\<not> is_space (hd k)" and "\<not> is_space (last k)"
  shows "str_contains k (lower (strip s))"
  using assms by (simp add: str_contains_sublist lower_strip sublist_strip_keep)

lemma contains_norm_raw:
  assumes "str_contains k (lower (strip s))"
  shows "str_contains k (lower s)"
proof -
  from assms have "sublist k (strip (lower s))"
    by (simp add: str_contains_sublist lower_strip)
  then have "sublist k (lower s)"
    using sublist_strip sublist_order.order.trans by blast
  then show ?thesis by (simp add: str_contains_sublist)
qed

lemma edge_pending: "\<not> is_space (hd ''pending'')" "\<not> is_space (last ''pending'')"
  by code_simp+

lemma edge_under_contract:
  "\<not> is_space (hd ''under contract'')" "\<not> is_space (last ''under contract'')"
  by code_simp+

lemma edge_a_slash_i: "\<not> is_space (hd ''a/i'')" "\<not> is_space (last ''a/i'')"
  by code_simp+

lemma bucket_of_pending:
  assumes "str_contains ''pending'' t \<or> str_contains ''under contract'' t"
  shows "bucket_of t = Pending"
  using assms by (auto simp: bucket_of_def any_in_def PENDING_KEYS_def)

lemma a_slash_i_has_a_slash:
  assumes "str_contains ''a/i'' t"
  shows "str_contains ''a/'' t"
proof -
  from assms have "sublist ''a/i'' t" by (simp add: str_contains_sublist)
  moreover have "sublist ''a/'' ''a/i''"
    by (rule prefix_imp_sublist) simp
  ultimately have "sublist ''a/'' t"
    using sublist_order.order.trans by blast
  then show ?thesis by (simp add: str_contains_sublist)
qed

section \<open>Rounding to binary64\<close>

lemma pow2_pos: "0 < (2::rat) powi k"
  by (simp add: zero_less_power_int)

lemma pow2_less_iff: "(2::rat) powi a < 2 powi b \<longleftrightarrow> a < b"
proof
  assume l: "(2::rat) powi a < 2 powi b"
  show "a < b"
  proof (rule ccontr)
    assume "\<not> a < b"
    then have "b \<le> a" by simp
    then have "(2::rat) powi b \<le> 2 powi a"
      by (rule power_int_increasing) simp
    with l show False by simp
  qed
next
  assume "a < b"
  then show "(2::rat) powi a < 2 powi b"
    by (rule power_int_strict_increasing) simp
qed

lemma pow2_le_iff: "(2::rat) powi a \<le> 2 powi b \<longleftrightarrow> a \<le> b"
proof
  assume l: "(2::rat) powi a \<le> 2 powi b"
  show "a \<le> b"
  proof (rule ccontr)
    assume "\<not> a \<le> b"
    then have "b < a" by simp
    then have "(2::rat) powi b < 2 powi a"
      by (rule power_int_strict_increasing) simp
    with l show False by simp
  qed
next
  assume "a \<le> b"
  then show "(2::rat) powi a \<le> 2 powi b"
    by (rule power_int_increasing) simp
qed

lemma pow2_split: "(2::rat) powi (a + b) = 2 powi a * 2 powi b"
  by (simp add: power_int_add)

lemma pow2_nat: "0 \<le> k \<Longrightarrow> (2::rat) powi k = of_int (2 ^ nat k)"
  by (simp add: power_int_def)

lemma floorlog2_bounds:
  assumes "0 < q"
  shows "2 powi floorlog2 q \<le> q \<and> q < 2 powi (floorlog2 q + 1)"
proof -
  obtain n d where nd: "quotient_of q = (n, d)" by (cases "quotient_of q")
  then have d: "0 < d" and q: "q = of_int n / of_int d"
    using quotient_of_denom_pos quotient_of_div by blast+
  with assms have n: "0 < n"
    by (simp add: zero_less_divide_iff)
  define bn where "bn = bitlen n"
  define bd where "bd = bitlen d"
  have bn1: "1 \<le> bn" and bd1: "1 \<le> bd"
    using n d by (auto simp: bn_def bd_def bitlen_alt_def)
  from bitlen_bounds [OF n] have "2 ^ nat (bn - 1) \<le> n" "n < 2 ^ nat bn"
    by (auto simp: bn_def)
  then have "(of_int (2 ^ nat (bn - 1)) :: rat) \<le> of_int n"
    "(of_int n :: rat) < of_int (2 ^ nat bn)"
    unfolding of_int_le_iff of_int_less_iff by auto
  then have nb: "(2::rat) powi (bn - 1) \<le> of_int n" "(of_int n :: rat) < 2 powi bn"
    using bn1 by (simp_all add: power_int_def)
  from bitlen_bounds [OF d] have "2 ^ nat (bd - 1) \<le> d" "d < 2 ^ nat bd"
    by (auto simp: bd_def)
  then have "(of_int (2 ^ nat (bd - 1)) :: rat) \<le> of_int d"
    "(of_int d :: rat) < of_int (2 ^ nat bd)"
    unfolding of_int_le_iff of_int_less_iff by auto
  then have db: "(2::rat) powi (bd - 1) \<le> of_int d" "(of_int d :: rat) < 2 powi bd"
    using bd1 by (simp_all add: power_int_def)
  define k where "k = bn - bd"
  have dpos: "0 < (of_int d :: rat)" using d by simp
  have lower: "(2::rat) powi (k - 1) \<le> q"
  proof -
    have "(2::rat) powi (k - 1) * of_int d \<le> 2 powi (k - 1) * 2 powi bd"
      using db(2) by (intro mult_left_mono) (auto simp: pow2_pos less_imp_le)
    also have "\<dots> = 2 powi (bn - 1)"
      by (simp add: k_def flip: power_int_add)
    also have "\<dots> \<le> of_int n" by (rule nb(1))
    finally show ?thesis
      using dpos by (simp add: q pos_le_divide_eq)
  qed
  have upper: "q < (2::rat) powi (k + 1)"
  proof -
    have "of_int n < (2::rat) powi bn" by (rule nb(2))
    also have "\<dots> = 2 powi (k + 1) * 2 powi (bd - 1)"
      by (simp add: k_def flip: power_int_add)
    also have "\<dots> \<le> 2 powi (k + 1) * of_int d"
      using db(1) by (intro mult_left_mono) (auto simp: pow2_pos less_imp_le)
    finally show ?thesis
      using dpos by (simp add: q pos_divide_less_eq)
  qed
  have fl: "floorlog2 q = (if 2 powi k \<le> q then k else k - 1)"
    by (simp add: floorlog2_def nd k_def bn_def bd_def Let_def)
  show ?thesis
  proof (cases "2 powi k \<le> q")
    case True
    with upper fl show ?thesis by simp
  next
    case False
    with lower fl show ?thesis by simp
  qed
qed

lemma floorlog2_unique:
  assumes "0 < q" and "2 powi e \<le> q" and "q < 2 powi (e + 1)"
  shows "floorlog2 q = e"
proof -
  from floorlog2_bounds [OF assms(1)]
  have b: "2 powi floorlog2 q \<le> q" "q < 2 powi (floorlog2 q + 1)" by auto
  have "(2::rat) powi e < 2 powi (floorlog2 q + 1)"
    using assms(2) b(2) by simp
  then have "e < floorlog2 q + 1"
    by (simp add: pow2_less_iff)
  moreover have "(2::rat) powi floorlog2 q < 2 powi (e + 1)"
    using assms(3) b(1) by simp
  then have "floorlog2 q < e + 1"
    by (simp add: pow2_less_iff)
  ultimately show ?thesis by simp
qed

lemma round_half_even_of_int: "round_half_even (of_int m) = m"
  by (simp add: round_half_even_def)

lemma round_half_even_mono:
  assumes "x \<le> y"
  shows "round_half_even x \<le> round_half_even y"
proof (cases "\<lfloor>x\<rfloor> = \<lfloor>y\<rfloor>")
  case True
  with assms show ?thesis
    by (auto simp: round_half_even_def Let_def)
next
  case False
  with assms have "\<lfloor>x\<rfloor> < \<lfloor>y\<rfloor>"
    using floor_mono [of x y] by simp
  then have "\<lfloor>x\<rfloor> + 1 \<le> \<lfloor>y\<rfloor>" by simp
  moreover have "round_half_even x \<le> \<lfloor>x\<rfloor> + 1"
    by (simp add: round_half_even_def Let_def)
  moreover have "\<lfloor>y\<rfloor> \<le> round_half_even y"
    by (simp add: round_half_even_def Let_def)
  ultimately show ?thesis by linarith
qed

lemma round_half_even_nonneg: "0 \<le> x \<Longrightarrow> 0 \<le> round_half_even x"
  using round_half_even_mono [of 0 x] round_half_even_of_int [of 0] by simp

text \<open>A number with at most 53 significant bits, in range, is its own rounding.\<close>

lemma round64_representable:
  assumes M: "\<bar>M\<bar> < 2 ^ 53" and E: "- 1074 \<le> E"
    and R: "of_int \<bar>M\<bar> * (2::rat) powi E < 2 ^ 1024"
  shows "round64 (of_int M * 2 powi E) = Fin (of_int M * 2 powi E)"
proof (cases "M = 0")
  case True
  then show ?thesis by (simp add: round64_def)
next
  case False
  define q :: rat where "q = of_int M * 2 powi E"
  define a where "a = \<bar>q\<bar>"
  have a: "a = of_int \<bar>M\<bar> * 2 powi E"
    by (simp add: a_def q_def abs_mult)
  have apos: "0 < a"
    using False by (simp add: a pow2_pos)
  define f where "f = floorlog2 a"
  define e where "e = max f (- 1022) - 52"
  have "a < 2 ^ 53 * 2 powi E"
  proof -
    have "(of_int \<bar>M\<bar> :: rat) < of_int (2 ^ 53)"
      using M unfolding of_int_less_iff .
    then show ?thesis
      unfolding a by (intro mult_strict_right_mono) (simp_all add: pow2_pos)
  qed
  also have "\<dots> = 2 powi (53 + E)"
    by (simp add: pow2_split)
  finally have "a < 2 powi (53 + E)" .
  moreover have "2 powi f \<le> a"
    using floorlog2_bounds [OF apos] by (simp add: f_def)
  ultimately have "(2::rat) powi f < 2 powi (53 + E)" by simp
  then have "f < 53 + E" by (simp add: pow2_less_iff)
  with E have eE: "e \<le> E" by (simp add: e_def)
  define j where "j = E - e"
  have j: "0 \<le> j" "E = e + j" using eE by (simp_all add: j_def)
  have "a / 2 powi e = of_int \<bar>M\<bar> * 2 powi j"
    by (simp add: a j(2) pow2_split)
  also have "\<dots> = of_int (\<bar>M\<bar> * 2 ^ nat j)"
    using j(1) by (simp add: pow2_nat)
  finally have "round_half_even (a / 2 powi e) = \<bar>M\<bar> * 2 ^ nat j"
    by (simp only: round_half_even_of_int)
  then have "of_int (round_half_even (a / 2 powi e)) * (2::rat) powi e
      = of_int \<bar>M\<bar> * 2 powi j * 2 powi e"
    using j(1) by (simp add: pow2_nat)
  also have "\<dots> = a"
    by (simp add: a j(2) pow2_split)
  finally have v: "of_int (round_half_even (a / 2 powi e)) * (2::rat) powi e = a" .
  have qne: "q \<noteq> 0" using apos by (simp add: a_def)
  have "\<not> 2 ^ 1024 \<le> a" using R by (simp add: a)
  then have "round64 q = Fin (if q < 0 then - a else a)"
    using qne v
    unfolding round64_def Let_def a_def [symmetric] f_def [symmetric] e_def [symmetric]
    by simp
  also have "(if q < 0 then - a else a) = q"
    by (simp add: a_def)
  finally show ?thesis by (simp add: q_def)
qed

text \<open>What rounding returns has at most 53 significant bits and is in range.\<close>

lemma round64_form:
  assumes "round64 q = Fin v"
  shows "\<exists>M E. v = of_int M * 2 powi E \<and> \<bar>M\<bar> < 2 ^ 53 \<and> - 1074 \<le> E
            \<and> of_int \<bar>M\<bar> * (2::rat) powi E < 2 ^ 1024"
proof (cases "q = 0")
  case True
  with assms have "v = 0" by (simp add: round64_def)
  then show ?thesis
    by (intro exI [of _ 0] exI [of _ "0::int"]) simp
next
  case False
  define a where "a = \<bar>q\<bar>"
  have apos: "0 < a" using False by (simp add: a_def)
  define f where "f = floorlog2 a"
  define e where "e = max f (- 1022) - 52"
  define m where "m = round_half_even (a / 2 powi e)"
  define w :: rat where "w = of_int m * 2 powi e"
  from assms False have w: "\<not> 2 ^ 1024 \<le> w" and v: "v = (if q < 0 then - w else w)"
    unfolding round64_def Let_def a_def [symmetric] f_def [symmetric] e_def [symmetric]
      m_def [symmetric] w_def [symmetric]
    by (auto split: if_splits)
  have e: "- 1074 \<le> e" "f \<le> e + 52" by (simp_all add: e_def)
  have m0: "0 \<le> m"
    unfolding m_def using apos by (intro round_half_even_nonneg) (simp add: pow2_pos less_imp_le)
  have "a < 2 powi (f + 1)"
    using floorlog2_bounds [OF apos] by (simp add: f_def)
  also have "\<dots> \<le> 2 powi (e + 53)"
    using e(2) by (simp add: pow2_le_iff)
  also have "\<dots> = 2 ^ 53 * 2 powi e"
    by (simp add: pow2_split)
  finally have "a / 2 powi e < 2 ^ 53"
    by (simp add: pos_divide_less_eq pow2_pos)
  then have "a / 2 powi e \<le> of_int (2 ^ 53)" by simp
  then have "m \<le> round_half_even (of_int (2 ^ 53))"
    unfolding m_def by (rule round_half_even_mono)
  then have m53: "m \<le> 2 ^ 53"
    by (simp only: round_half_even_of_int)
  show ?thesis
  proof (cases "m = 2 ^ 53")
    case True
    define M :: int where "M = (if q < 0 then - (2 ^ 52) else 2 ^ 52)"
    have "w = 2 ^ 53 * 2 powi e" by (simp add: w_def True)
    also have "\<dots> = 2 ^ 52 * 2 powi (e + 1)" by (simp add: pow2_split)
    finally have w': "w = 2 ^ 52 * 2 powi (e + 1)" .
    have "v = of_int M * 2 powi (e + 1)"
      by (simp add: v w' M_def)
    moreover have "\<bar>M\<bar> < 2 ^ 53" by (simp add: M_def)
    moreover have "- 1074 \<le> e + 1" using e(1) by simp
    moreover have "of_int \<bar>M\<bar> * (2::rat) powi (e + 1) < 2 ^ 1024"
      using w by (simp add: w' M_def)
    ultimately show ?thesis by blast
  next
    case False
    define M :: int where "M = (if q < 0 then - m else m)"
    have "v = of_int M * 2 powi e"
      by (simp add: v w_def M_def)
    moreover have "\<bar>M\<bar> < 2 ^ 53" using m0 m53 False by (simp add: M_def)
    moreover have "of_int \<bar>M\<bar> * (2::rat) powi e < 2 ^ 1024"
      using w m0 by (simp add: w_def M_def)
    ultimately show ?thesis using e(1) by blast
  qed
qed

lemma round64_idem:
  assumes "round64 q = Fin v"
  shows "round64 v = Fin v"
  using round64_form [OF assms] round64_representable by blast

lemma is_nan_round64: "\<not> is_nan (round64 q)"
  by (simp add: round64_def Let_def)

lemma round64_of_int: "\<bar>n\<bar> < 2 ^ 53 \<Longrightarrow> round64 (of_int n) = Fin (of_int n)"
  using round64_representable [of n 0] by simp

text \<open>Rounding keeps a number at or above a power of two of the normal range.\<close>

lemma round64_ge_pow2:
  assumes "2 powi j \<le> q" and "- 1022 \<le> j"
  shows "round64 q = PInf \<or> (\<exists>v. round64 q = Fin v \<and> 2 powi j \<le> v)"
proof -
  have qpos: "0 < q"
    using pow2_pos [of j] assms(1) by (rule less_le_trans)
  define f where "f = floorlog2 q"
  define e where "e = max f (- 1022) - 52"
  define m where "m = round_half_even (q / 2 powi e)"
  define w :: rat where "w = of_int m * 2 powi e"
  have fb: "2 powi f \<le> q" "q < 2 powi (f + 1)"
    using floorlog2_bounds [OF qpos] by (simp_all add: f_def)
  have "(2::rat) powi j < 2 powi (f + 1)"
    using assms(1) fb(2) by simp
  then have jf: "j \<le> f" by (simp add: pow2_less_iff)
  with assms(2) have e: "e = f - 52" by (simp add: e_def)
  have split: "(2::rat) powi f = 2 ^ 52 * 2 powi e"
    by (simp add: e flip: pow2_split) (simp add: power_int_diff)
  with fb(1) have "of_int (2 ^ 52) \<le> q / 2 powi e"
    by (simp add: pos_le_divide_eq pow2_pos)
  then have "round_half_even (of_int (2 ^ 52)) \<le> m"
    unfolding m_def by (rule round_half_even_mono)
  then have "2 ^ 52 \<le> m" by (simp only: round_half_even_of_int)
  then have "(of_int (2 ^ 52) :: rat) \<le> of_int m"
    unfolding of_int_le_iff .
  then have "2 ^ 52 * 2 powi e \<le> w"
    unfolding w_def by (intro mult_right_mono) (simp_all add: pow2_pos less_imp_le)
  then have "2 powi f \<le> w"
    using split by simp
  moreover have "(2::rat) powi j \<le> 2 powi f"
    using jf by (simp add: pow2_le_iff)
  ultimately have jw: "2 powi j \<le> w" by simp
  have "round64 q = (if 2 ^ 1024 \<le> w then PInf else Fin w)"
    using qpos unfolding round64_def Let_def
    by (simp add: f_def e_def m_def w_def)
  with jw show ?thesis by auto
qed

text \<open>Rounding a quotient of integers, by integer division.\<close>

lemma round_half_even_ratio:
  assumes "0 < d"
  shows "round_half_even (of_int n / of_int d) =
           (if 2 * (n mod d) < d then n div d
            else if d < 2 * (n mod d) then n div d + 1
            else if even (n div d) then n div d else n div d + 1)"
proof -
  have dpos: "0 < (of_int d :: rat)" using assms by simp
  have fl: "\<lfloor>(of_int n / of_int d :: rat)\<rfloor> = n div d"
    by (rule floor_divide_of_int_eq)
  have "(of_int n :: rat) = of_int (n div d) * of_int d + of_int (n mod d)"
    unfolding of_int_mult [symmetric] of_int_add [symmetric] by simp
  then have r: "(of_int n / of_int d :: rat) - of_int (n div d) = of_int (n mod d) / of_int d"
    using dpos by (simp add: field_simps)
  have lt: "(of_int (n mod d) / of_int d :: rat) < 1 / 2 \<longleftrightarrow> 2 * (n mod d) < d"
  proof -
    have "(of_int (n mod d) / of_int d :: rat) < 1 / 2 \<longleftrightarrow> (of_int (2 * (n mod d)) :: rat) < of_int d"
      using dpos by (simp add: field_simps)
    then show ?thesis by (simp only: of_int_less_iff)
  qed
  have gt: "1 / 2 < (of_int (n mod d) / of_int d :: rat) \<longleftrightarrow> d < 2 * (n mod d)"
  proof -
    have "1 / 2 < (of_int (n mod d) / of_int d :: rat) \<longleftrightarrow> (of_int d :: rat) < of_int (2 * (n mod d))"
      using dpos by (simp add: field_simps)
    then show ?thesis by (simp only: of_int_less_iff)
  qed
  show ?thesis
    unfolding round_half_even_def Let_def fl r lt gt ..
qed

text \<open>Rounding a given number, the exponent and the significand supplied.\<close>

lemma round64_eval:
  assumes "0 < q" and "2 powi f \<le> q" and "q < 2 powi (f + 1)" and "- 1022 \<le> f"
    and "q / 2 powi (f - 52) = of_int n / of_int d" and "0 < d"
    and "(if 2 * (n mod d) < d then n div d
          else if d < 2 * (n mod d) then n div d + 1
          else if even (n div d) then n div d else n div d + 1) = m"
    and "of_int m * 2 powi (f - 52) = v" and "v < 2 ^ 1024"
  shows "round64 q = Fin v"
proof -
  have "floorlog2 q = f"
    using assms(1-3) by (rule floorlog2_unique)
  moreover have "round_half_even (q / 2 powi (f - 52)) = m"
    unfolding assms(5) round_half_even_ratio [OF assms(6)] by (rule assms(7))
  ultimately show ?thesis
    using assms(1,4,8,9) by (simp add: round64_def Let_def)
qed

section \<open>Order of floating-point values\<close>

lemma is_nan_fsub:
  "is_nan (fsub a b) \<longleftrightarrow> is_nan a \<or> is_nan b \<or> (a = PInf \<and> b = PInf) \<or> (a = NInf \<and> b = NInf)"
  by (cases a; cases b) (simp_all add: is_nan_round64)

lemma fle_refl: "\<not> is_nan a \<Longrightarrow> fle a a"
  by (cases a) simp_all

lemma fle_trans: "fle a b \<Longrightarrow> fle b c \<Longrightarrow> fle a c"
  by (cases a; cases b; cases c) simp_all

lemma fle_total: "\<not> is_nan a \<Longrightarrow> \<not> is_nan b \<Longrightarrow> fle a b \<or> fle b a"
  by (cases a; cases b) auto

lemma is_nan_fmin: "\<not> is_nan a \<Longrightarrow> \<not> is_nan b \<Longrightarrow> \<not> is_nan (fmin a b)"
  by (simp add: fmin_def)

lemma is_nan_fmax: "\<not> is_nan a \<Longrightarrow> \<not> is_nan b \<Longrightarrow> \<not> is_nan (fmax a b)"
  by (simp add: fmax_def)

lemma fold_fmin_le:
  "\<not> is_nan a \<Longrightarrow> list_all (\<lambda>x. \<not> is_nan x) xs \<Longrightarrow> fle (fold fmin xs a) a"
proof (induction xs arbitrary: a)
  case Nil
  then show ?case by (simp add: fle_refl)
next
  case (Cons x xs)
  then have "fle (fold fmin xs (fmin x a)) (fmin x a)"
    by (simp add: is_nan_fmin)
  moreover have "fle (fmin x a) a"
    using Cons.prems fle_total [of x a] by (auto simp: fmin_def fle_refl)
  ultimately show ?case
    by (auto intro: fle_trans)
qed

lemma fold_fmax_ge:
  "\<not> is_nan a \<Longrightarrow> list_all (\<lambda>x. \<not> is_nan x) xs \<Longrightarrow> fle a (fold fmax xs a)"
proof (induction xs arbitrary: a)
  case Nil
  then show ?case by (simp add: fle_refl)
next
  case (Cons x xs)
  then have "fle (fmax x a) (fold fmax xs (fmax x a))"
    by (simp add: is_nan_fmax)
  moreover have "fle a (fmax x a)"
    using Cons.prems fle_total [of x a] by (auto simp: fmax_def fle_refl)
  ultimately show ?case
    by (auto intro: fle_trans)
qed

lemma series_min_le_max:
  assumes "xs \<noteq> []" and "list_all (\<lambda>x. \<not> is_nan x) xs"
  shows "fle (series_min xs) (series_max xs)"
proof -
  from assms obtain a ys where xs: "xs = a # ys" by (cases xs) auto
  with assms have "fle (fold fmin ys a) a" "fle a (fold fmax ys a)"
    by (simp_all add: fold_fmin_le fold_fmax_ge)
  then show ?thesis
    using xs by (auto intro: fle_trans)
qed

lemma dropna_all: "list_all (\<lambda>x. \<not> is_nan x) (dropna xs)"
  by (simp add: dropna_def list_all_iff)

lemma range_ordered:
  "dropna xs \<noteq> [] \<Longrightarrow> fle (series_min (dropna xs)) (series_max (dropna xs))"
  by (simp add: series_min_le_max dropna_all)

section \<open>Cleaning a cell\<close>

lemma float_space_is_space: "float_space c \<Longrightarrow> is_space c"
  by (auto simp: float_space_def is_space_def Let_def)

lemma dropWhile_ends: "dropWhile P t \<noteq> [] \<Longrightarrow> \<not> P (hd (dropWhile P t))"
  by (induction t) (auto split: if_splits)

lemma dropWhile_id_hd: "xs \<noteq> [] \<Longrightarrow> \<not> P (hd xs) \<Longrightarrow> dropWhile P xs = xs"
  by (cases xs) auto

lemma strip_ends: "strip s = [] \<or> (\<not> is_space (hd (strip s)) \<and> \<not> is_space (last (strip s)))"
proof (cases "strip s = []")
  case True
  then show ?thesis by simp
next
  case False
  define u where "u = dropWhile is_space s"
  define w where "w = dropWhile is_space (rev u)"
  have s: "strip s = rev w" by (simp add: strip_def u_def w_def)
  with False have w: "w \<noteq> []" by simp
  then have lastw: "\<not> is_space (hd w)"
    unfolding w_def by (rule dropWhile_ends)
  have "suffix w (rev u)"
    unfolding w_def by (rule suffix_dropWhile)
  then obtain p where "rev u = p @ w" by (auto simp: suffix_def)
  then have "u = rev w @ rev p"
    by (metis rev_append rev_rev_ident)
  with w have "hd u = hd (rev w)" by simp
  moreover have "u \<noteq> []" using \<open>u = rev w @ rev p\<close> w by simp
  then have "\<not> is_space (hd u)"
    unfolding u_def by (rule dropWhile_ends)
  ultimately have "\<not> is_space (hd (rev w))" by simp
  moreover have "last (rev w) = hd w" using w by (simp add: last_rev)
  ultimately show ?thesis using lastw by (simp add: s)
qed

lemma strip_id:
  assumes "t = [] \<or> (\<not> is_space (hd t) \<and> \<not> is_space (last t))"
  shows "strip t = t"
proof (cases t)
  case Nil
  then show ?thesis by (simp add: strip_def)
next
  case (Cons a u)
  with assms have h: "\<not> is_space a" and l: "\<not> is_space (last t)" by auto
  from h Cons have 1: "dropWhile is_space t = t" by simp
  from Cons have "rev t \<noteq> []" by simp
  moreover have "hd (rev t) = last t" using Cons by (simp add: hd_rev)
  ultimately have "dropWhile is_space (rev t) = rev t"
    using l by (intro dropWhile_id_hd) simp_all
  with 1 show ?thesis by (simp add: strip_def)
qed

lemma float_strip_id:
  assumes "t = [] \<or> (\<not> float_space (hd t) \<and> \<not> float_space (last t))"
  shows "float_strip t = t"
proof (cases t)
  case Nil
  then show ?thesis by (simp add: float_strip_def)
next
  case (Cons a u)
  with assms have h: "\<not> float_space a" and l: "\<not> float_space (last t)" by auto
  from h Cons have 1: "dropWhile float_space t = t" by simp
  from Cons have "rev t \<noteq> []" by simp
  moreover have "hd (rev t) = last t" using Cons by (simp add: hd_rev)
  ultimately have "dropWhile float_space (rev t) = rev t"
    using l by (intro dropWhile_id_hd) simp_all
  with 1 show ?thesis by (simp add: float_strip_def)
qed

lemma float_strip_strip: "float_strip (strip s) = strip s"
  using strip_ends [of s] float_space_is_space by (intro float_strip_id) blast

lemma float_strip_clean: "float_strip (clean raw) = clean raw"
  by (simp add: clean_def float_strip_strip)







lemma py_float_clean:
  "py_float (clean raw) =
     (if underscores_ok (CHR 0x00) (clean raw)
      then (case scan_float (remove_char (CHR ''_'') (clean raw)) of
              None \<Rightarrow> Inl ValueError
            | Some l \<Rightarrow> Inr (float_value l))
      else Inl ValueError)"
  by (simp add: py_float_def float_strip_clean)

lemma to_num_scanned:
  assumes "clean raw = t" and "underscores_ok (CHR 0x00) t"
    and "scan_float (remove_char (CHR ''_'') t) = Some l"
  shows "to_num (Some raw) = float_value l"
  using assms(2,3) unfolding assms(1) [symmetric] by (simp add: to_num_def py_float_clean)

section \<open>Reading numbers\<close>

lemma digit_facts:
  assumes "is_digit c"
  shows "c \<noteq> CHR ''$''" "c \<noteq> CHR '',''" "c \<noteq> CHR ''_''" "c \<noteq> CHR ''+''" "c \<noteq> CHR ''-''"
    "c \<noteq> CHR ''.''" "c \<noteq> CHR ''i''" "c \<noteq> CHR ''n''" "\<not> is_space c" "lower_char c = c"
  using assms by (auto simp: is_digit_def is_space_def lower_char_def Let_def)

lemma point_facts:
  "\<not> is_digit (CHR ''.'')" "\<not> is_space (CHR ''.'')" "lower_char (CHR ''.'') = CHR ''.''"
  by code_simp+

lemma underscores_ok_plain:
  "CHR ''_'' \<notin> set t \<Longrightarrow> p \<noteq> CHR ''_'' \<Longrightarrow> underscores_ok p t"
  by (induction t arbitrary: p) auto


lemma remove_char_absent: "c \<notin> set t \<Longrightarrow> remove_char c t = t"
  by (auto simp: remove_char_def filter_id_conv)


text \<open>A text of digits and points only.\<close>

lemma plain_not_space:
  assumes "is_digit c \<or> c = CHR ''.''"
  shows "\<not> is_space c"
  using assms
proof
  assume "is_digit c"
  then show ?thesis by (rule digit_facts(9))
next
  assume "c = CHR ''.''"
  then show ?thesis by (simp only: point_facts(2) not_False_eq_True)
qed

lemma plain_clean:
  assumes "\<forall>c\<in>set t. is_digit c \<or> c = CHR ''.''"
  shows "clean t = t"
proof -
  have "c \<noteq> CHR ''$'' \<and> c \<noteq> CHR '',''" if "c \<in> set t" for c
  proof -
    from assms that have "is_digit c \<or> c = CHR ''.''" by blast
    then show ?thesis
    proof
      assume "is_digit c"
      then show ?thesis using digit_facts(1,2) by blast
    next
      assume "c = CHR ''.''"
      then show ?thesis by simp
    qed
  qed
  then have no: "CHR ''$'' \<notin> set t" "CHR '','' \<notin> set t"
    by blast+
  have "t = [] \<or> (\<not> is_space (hd t) \<and> \<not> is_space (last t))"
  proof (cases "t = []")
    case True
    then show ?thesis by simp
  next
    case False
    then have "hd t \<in> set t" "last t \<in> set t" by simp_all
    with assms have "is_digit (hd t) \<or> hd t = CHR ''.''" "is_digit (last t) \<or> last t = CHR ''.''"
      by blast+
    then show ?thesis
      using plain_not_space by blast
  qed
  then have "strip t = t" by (rule strip_id)
  with no show ?thesis
    by (simp add: clean_def remove_char_absent)
qed

lemma plain_facts:
  assumes "is_digit c \<or> c = CHR ''.''"
  shows "c \<noteq> CHR ''-''" "c \<noteq> CHR ''+''" "c \<noteq> CHR ''_''" "c \<noteq> CHR ''i''" "c \<noteq> CHR ''n''"
    "lower_char c = c"
proof -
  from assms show "c \<noteq> CHR ''-''" using digit_facts(5) by (elim disjE) simp_all
  from assms show "c \<noteq> CHR ''+''" using digit_facts(4) by (elim disjE) simp_all
  from assms show "c \<noteq> CHR ''_''" using digit_facts(3) by (elim disjE) simp_all
  from assms show "c \<noteq> CHR ''i''" using digit_facts(7) by (elim disjE) simp_all
  from assms show "c \<noteq> CHR ''n''" using digit_facts(8) by (elim disjE) simp_all
  from assms show "lower_char c = c" using digit_facts(10) point_facts(3) by (elim disjE) simp_all
qed

lemma plain_sign:
  assumes "\<forall>c\<in>set t. is_digit c \<or> c = CHR ''.''"
  shows "split_sign t = (False, t)"
proof (cases t)
  case Nil
  then show ?thesis by (simp add: split_sign_def)
next
  case (Cons a u)
  with assms have "is_digit a \<or> a = CHR ''.''" by simp
  then have "a \<noteq> CHR ''-''" "a \<noteq> CHR ''+''"
    by (rule plain_facts)+
  with Cons show ?thesis by (simp add: split_sign_def)
qed

lemma plain_lower:
  assumes "\<forall>c\<in>set t. is_digit c \<or> c = CHR ''.''"
  shows "lower t = t"
  unfolding lower_def
proof (rule map_idI)
  fix c assume "c \<in> set t"
  with assms have "is_digit c \<or> c = CHR ''.''" by blast
  then show "lower_char c = c" by (rule plain_facts)
qed

lemma plain_not_word:
  assumes "\<forall>c\<in>set t. is_digit c \<or> c = CHR ''.''"
  shows "t \<noteq> ''inf''" "t \<noteq> ''infinity''" "t \<noteq> ''nan''"
proof -
  have i: "CHR ''i'' \<notin> set t"
  proof
    assume "CHR ''i'' \<in> set t"
    with assms have "is_digit (CHR ''i'') \<or> CHR ''i'' = CHR ''.''" by blast
    then have "CHR ''i'' \<noteq> CHR ''i''" by (rule plain_facts)
    then show False by simp
  qed
  have n: "CHR ''n'' \<notin> set t"
  proof
    assume "CHR ''n'' \<in> set t"
    with assms have "is_digit (CHR ''n'') \<or> CHR ''n'' = CHR ''.''" by blast
    then have "CHR ''n'' \<noteq> CHR ''n''" by (rule plain_facts)
    then show False by simp
  qed
  show "t \<noteq> ''inf''"
  proof
    assume "t = ''inf''"
    then have "CHR ''i'' \<in> set t" by simp
    with i show False ..
  qed
  show "t \<noteq> ''infinity''"
  proof
    assume "t = ''infinity''"
    then have "CHR ''i'' \<in> set t" by simp
    with i show False ..
  qed
  show "t \<noteq> ''nan''"
  proof
    assume "t = ''nan''"
    then have "CHR ''n'' \<in> set t" by simp
    with n show False ..
  qed
qed


lemma whole_scan:
  assumes ip: "list_all is_digit ip" and ne: "ip \<noteq> []"
  shows "scan_float ip = Some (LitDec False (digits_val ip) 0)"
proof -
  have plain: "\<forall>c\<in>set ip. is_digit c \<or> c = CHR ''.''"
    using ip by (simp add: list_all_iff)
  have sign: "split_sign ip = (False, ip)"
    using plain by (rule plain_sign)
  have low: "lower ip = ip"
    using plain by (rule plain_lower)
  have word: "lower ip \<noteq> ''inf''" "lower ip \<noteq> ''infinity''" "lower ip \<noteq> ''nan''"
    unfolding low using plain by (rule plain_not_word)+
  have tw: "takeWhile is_digit ip = ip" and dw: "dropWhile is_digit ip = []"
    using ip by (simp_all add: list_all_iff)
  have pe: "parse_exponent [] = Some 0"
    by (simp add: parse_exponent_def)
  show ?thesis
    unfolding scan_float_def sign prod.case Let_def tw dw
    using word ne by (simp add: pe)
qed


lemma to_num_whole:
  assumes "list_all is_digit ip" and "ip \<noteq> []"
  shows "to_num (Some ip) = round64 (of_int (digits_val ip))"
proof -
  have plain: "\<forall>c\<in>set ip. is_digit c \<or> c = CHR ''.''"
    using assms by (auto simp: list_all_iff)
  then have c: "clean ip = ip" by (rule plain_clean)
  have us: "CHR ''_'' \<notin> set ip"
    using assms digit_facts(3) by (auto simp: list_all_iff)
  then have u: "underscores_ok (CHR 0x00) ip"
    by (intro underscores_ok_plain) simp_all
  have "scan_float (remove_char (CHR ''_'') ip) = Some (LitDec False (digits_val ip) 0)"
    using whole_scan [OF assms] us by (simp add: remove_char_absent)
  from to_num_scanned [OF c u this] show ?thesis
    by (simp add: scale10_def)
qed









section \<open>The denominator and the months of inventory\<close>

lemma int_to_float_count:
  assumes "0 \<le> n" and "int_to_float n = Inr s"
  shows "\<exists>v. s = Fin v \<and> (n = 0 \<longrightarrow> v = 0) \<and> (1 \<le> n \<longrightarrow> 1 \<le> v)"
proof -
  from assms(2) obtain v where v: "round64 (of_int n) = Fin v" and s: "s = Fin v"
    by (auto simp: int_to_float_def split: pyfloat.splits)
  have "v = 0" if "n = 0"
    using v that by (simp add: round64_def)
  moreover have "1 \<le> v" if "1 \<le> n"
  proof -
    from that have "(2::rat) powi 0 \<le> of_int n" by simp
    from round64_ge_pow2 [OF this] v show ?thesis by simp
  qed
  ultimately show ?thesis using s by blast
qed

lemma round64_quarter:
  assumes "1 / 4 \<le> q"
  shows "round64 q = PInf \<or> (\<exists>v. round64 q = Fin v \<and> 1 / 4 \<le> v)"
proof -
  have "(2::rat) powi (- 2) \<le> q" using assms by simp
  from round64_ge_pow2 [OF this] show ?thesis by simp
qed

text \<open>The denominator is zero when both counts are zero, and positive otherwise.\<close>

lemma den_of_sign:
  assumes "0 \<le> sold" and "0 \<le> pending" and "den_of sold pending = Inr d"
  shows "(sold = 0 \<and> pending = 0 \<longrightarrow> d = Fin 0)
       \<and> (\<not> (sold = 0 \<and> pending = 0) \<longrightarrow> d = PInf \<or> (\<exists>v. d = Fin v \<and> 0 < v))"
proof -
  from assms(3) obtain s x p where s: "int_to_float sold = Inr s"
    and x: "truediv s (Fin 3) = Inr x" and p: "int_to_float pending = Inr p"
    and d: "d = fadd x p"
    by (auto simp: den_of_def split: sum.splits)
  from int_to_float_count [OF assms(1) s] obtain sv
    where sv: "s = Fin sv" "sold = 0 \<longrightarrow> sv = 0" "1 \<le> sold \<longrightarrow> 1 \<le> sv" by blast
  from int_to_float_count [OF assms(2) p] obtain pv
    where pv: "p = Fin pv" "pending = 0 \<longrightarrow> pv = 0" "1 \<le> pending \<longrightarrow> 1 \<le> pv" by blast
  have pv0: "0 \<le> pv" using pv(2,3) assms(2) by (cases "pending = 0") auto
  from x sv(1) have xr: "x = round64 (sv / 3)" by simp
  have quarter: "d = PInf \<or> (\<exists>v. d = Fin v \<and> 0 < v)"
    if "x = PInf \<or> (\<exists>xv. x = Fin xv \<and> 1 / 4 \<le> xv)"
    using that
  proof
    assume "x = PInf"
    with d pv(1) show ?thesis by simp
  next
    assume "\<exists>xv. x = Fin xv \<and> 1 / 4 \<le> xv"
    then obtain xv where xv: "x = Fin xv" "1 / 4 \<le> xv" by blast
    with pv0 have "1 / 4 \<le> xv + pv" by simp
    from round64_quarter [OF this] have "round64 (xv + pv) = PInf
        \<or> (\<exists>v. round64 (xv + pv) = Fin v \<and> 0 < v)"
      by (auto intro: less_le_trans [of 0 "1 / 4"])
    with xv(1) pv(1) d show ?thesis by simp
  qed
  show ?thesis
  proof (cases "sold = 0")
    case True
    with sv(2) xr have x0: "x = Fin 0" by (simp add: round64_def)
    show ?thesis
    proof (cases "pending = 0")
      case True
      with pv(1,2) x0 d \<open>sold = 0\<close> show ?thesis by (simp add: round64_def)
    next
      case False
      with assms(2) pv(3) have "1 / 4 \<le> 0 + pv" by simp
      from round64_quarter [OF this] have "round64 (0 + pv) = PInf
          \<or> (\<exists>v. round64 (0 + pv) = Fin v \<and> 0 < v)"
        by (auto intro: less_le_trans [of 0 "1 / 4"])
      with x0 pv(1) d False show ?thesis by simp
    qed
  next
    case False
    with assms(1) sv(3) have "1 / 4 \<le> sv / 3" by simp
    from round64_quarter [OF this] have "x = PInf \<or> (\<exists>xv. x = Fin xv \<and> 1 / 4 \<le> xv)"
      by (simp add: xr)
    then have "d = PInf \<or> (\<exists>v. d = Fin v \<and> 0 < v)" by (rule quarter)
    with False show ?thesis by simp
  qed
qed

lemma moi_of_nan:
  assumes "moi_of active d = Inr m"
  shows "d = Fin 0 \<Longrightarrow> is_nan m"
    and "d = PInf \<or> (\<exists>v. d = Fin v \<and> 0 < v) \<Longrightarrow>
           \<not> is_nan m \<and> (\<exists>a. int_to_float active = Inr a \<and> truediv a d = Inr m)"
proof -
  show "is_nan m" if "d = Fin 0"
    using assms that by (simp add: moi_of_def)
  show "\<not> is_nan m \<and> (\<exists>a. int_to_float active = Inr a \<and> truediv a d = Inr m)"
    if "d = PInf \<or> (\<exists>v. d = Fin v \<and> 0 < v)"
  proof -
    from that have pos: "flt (Fin 0) d" by auto
    with assms obtain a where a: "int_to_float active = Inr a" and q: "truediv a d = Inr m"
      by (auto simp: moi_of_def split: sum.splits)
    from a obtain av where av: "a = Fin av"
      by (cases "round64 (of_int active)") (auto simp: int_to_float_def)
    from that q av have "\<not> is_nan m"
      by (auto simp: is_nan_round64 split: if_splits)
    with a q show ?thesis by blast
  qed
qed

section \<open>Evaluating the worked dataset\<close>

lemma to_num_300000: "to_num (Some ''300000'') = Fin 300000"
proof -
  have "list_all is_digit ''300000''" by code_simp
  then have "to_num (Some ''300000'') = round64 (of_int (digits_val ''300000''))"
    by (rule to_num_whole) simp
  moreover have "digits_val ''300000'' = 300000" by code_simp
  ultimately show ?thesis
    using round64_of_int [of 300000] by simp
qed

lemma to_num_250000: "to_num (Some ''250000'') = Fin 250000"
proof -
  have "list_all is_digit ''250000''" by code_simp
  then have "to_num (Some ''250000'') = round64 (of_int (digits_val ''250000''))"
    by (rule to_num_whole) simp
  moreover have "digits_val ''250000'' = 250000" by code_simp
  ultimately show ?thesis
    using round64_of_int [of 250000] by simp
qed

lemma to_num_280000: "to_num (Some ''280000'') = Fin 280000"
proof -
  have "list_all is_digit ''280000''" by code_simp
  then have "to_num (Some ''280000'') = round64 (of_int (digits_val ''280000''))"
    by (rule to_num_whole) simp
  moreover have "digits_val ''280000'' = 280000" by code_simp
  ultimately show ?thesis
    using round64_of_int [of 280000] by simp
qed

lemma to_num_5000: "to_num (Some ''5000'') = Fin 5000"
proof -
  have "list_all is_digit ''5000''" by code_simp
  then have "to_num (Some ''5000'') = round64 (of_int (digits_val ''5000''))"
    by (rule to_num_whole) simp
  moreover have "digits_val ''5000'' = 5000" by code_simp
  ultimately show ?thesis
    using round64_of_int [of 5000] by simp
qed

lemma to_num_None: "to_num None = NaN"
  by (simp add: to_num_def)

lemma bucket_Active: "bucket_status (Some ''Active'') = Active"
  by code_simp

lemma bucket_Pending: "bucket_status (Some ''Pending'') = Pending"
  by code_simp

lemma bucket_Closed: "bucket_status (Some ''Closed'') = Sold"
  by code_simp

lemmas scenario_eval = to_num_300000 to_num_250000 to_num_280000 to_num_5000 to_num_None
  bucket_Active bucket_Pending bucket_Closed

lemma window_start_scenario: "window_start (739000 * DAY) 90 = Inr (738910 * DAY)"
  by (simp add: window_start_def DAY_def)

lemma int_to_float_1: "int_to_float 1 = Inr (Fin 1)"
  using round64_of_int [of 1] by (simp add: int_to_float_def)

text \<open>One third, one and a third, and three quarters, in binary64.\<close>

lemma round64_third: "round64 (1 / 3) = Fin (6004799503160661 / 18014398509481984)"
  by (rule round64_eval [of _ "- 2" "18014398509481984" "3" "6004799503160661"]) simp_all

lemma round64_four_thirds:
  "round64 (24019198012642645 / 18014398509481984) = Fin (6004799503160661 / 4503599627370496)"
  by (rule round64_eval [of _ 0 "24019198012642645" "4" "6004799503160661"]) simp_all

lemma round64_three_quarters:
  "round64 (4503599627370496 / 6004799503160661) = Fin (3 / 4)"
  by (rule round64_eval
      [of _ "- 1" "40564819207303340847894502572032" "6004799503160661" "6755399441055744"])
    simp_all

lemma den_of_scenario: "den_of 1 1 = Inr (Fin (6004799503160661 / 4503599627370496))"
  by (simp add: den_of_def int_to_float_1 round64_third round64_four_thirds)

lemma moi_of_scenario: "moi_of 1 (Fin (6004799503160661 / 4503599627370496)) = Inr (Fin (3 / 4))"
  using round64_three_quarters by (simp add: moi_of_def int_to_float_1)

lemma build_docx_scenario:
  "build_docx \<lparr> frame_rows = scenario_rows, has_concessions = True \<rparr> 90 (739000 * DAY) =
     Inr scenario_stats"
proof -
  have r: "round64 275000 = Fin 275000"
    using round64_of_int [of 275000] by simp
  show ?thesis
    unfolding build_docx_def Let_def window_start_scenario
    by (simp add: scenario_rows_def scenario_stats_def prep_def scenario_eval
        is_sold_window_def net_price_def dropna_def fmin_def fmax_def DAY_def
        den_of_scenario moi_of_scenario r)
qed

lemma build_docx_scenario_plain:
  "build_docx \<lparr> frame_rows = scenario_rows, has_concessions = False \<rparr> 90 (739000 * DAY) =
     Inr (scenario_stats \<lparr> sold_net_min := Fin 280000, sold_net_max := Fin 280000 \<rparr>)"
proof -
  have r: "round64 280000 = Fin 280000"
    using round64_of_int [of 280000] by simp
  show ?thesis
    unfolding build_docx_def Let_def window_start_scenario
    by (simp add: scenario_rows_def scenario_stats_def prep_def scenario_eval
        is_sold_window_def net_price_def dropna_def fmin_def fmax_def DAY_def
        den_of_scenario moi_of_scenario r)
qed

text \<open>Five thirds, the denominator and the quotient of the second dataset, in binary64.\<close>

lemma int_to_float_5: "int_to_float 5 = Inr (Fin 5)"
  using round64_of_int [of 5] by (simp add: int_to_float_def)

lemma round64_five_thirds: "round64 (5 / 3) = Fin (7505999378950827 / 4503599627370496)"
  by (rule round64_eval [of _ 0 "22517998136852480" "3" "7505999378950827"]) simp_all

lemma round64_eight_thirds:
  "round64 (12009599006321323 / 4503599627370496) = Fin (3002399751580331 / 1125899906842624)"
  by (rule round64_eval [of _ 1 "12009599006321323" "2" "6004799503160662"]) simp_all

lemma round64_three_eighths:
  "round64 (1125899906842624 / 3002399751580331) = Fin (6755399441055743 / 18014398509481984)"
  by (rule round64_eval
      [of _ "- 2" "20282409603651670423947251286016" "3002399751580331" "6755399441055743"])
    simp_all

lemma den_of_rounding: "den_of 5 1 = Inr (Fin (3002399751580331 / 1125899906842624))"
  by (simp add: den_of_def int_to_float_1 int_to_float_5 round64_five_thirds
      round64_eight_thirds)

lemma moi_of_rounding:
  "moi_of 1 (Fin (3002399751580331 / 1125899906842624))
     = Inr (Fin (6755399441055743 / 18014398509481984))"
  using round64_three_eighths by (simp add: moi_of_def int_to_float_1)

lemma build_docx_rounding:
  "build_docx \<lparr> frame_rows = rounding_rows, has_concessions = False \<rparr> 90 (739000 * DAY) =
     Inr rounding_stats"
  unfolding build_docx_def Let_def window_start_scenario
  by (simp add: rounding_rows_def rounding_stats_def status_row_def prep_def scenario_eval
      is_sold_window_def net_price_def dropna_def DAY_def den_of_rounding moi_of_rounding)

section \<open>Subtracting no concessions\<close>

lemma fsub_round64_zero: "fsub (round64 q) (Fin 0) = round64 q"
proof (cases "round64 q")
  case (Fin v)
  then have "round64 v = Fin v" by (rule round64_idem)
  with Fin show ?thesis by simp
qed simp_all

lemma fsub_float_value_zero: "fsub (float_value l) (Fin 0) = float_value l"
  by (cases l) (simp_all add: fsub_round64_zero)

lemma fsub_to_num_zero: "fsub (to_num x) (Fin 0) = to_num x"
  by (simp add: to_num_def py_float_def Let_def fsub_float_value_zero
      split: option.splits sum.splits)

lemma net_price_plain: "net_price False (prep False r) = c_close_price (prep False r)"
  by (simp add: net_price_def prep_def fsub_to_num_zero)

lemma bucket_of_rule5: "bucket_of_without_rule5 t = bucket_of t"
proof (cases "t = ''active''")
  case True
  have "bucket_of ''active'' = Active" by code_simp
  moreover have "bucket_of_without_rule5 ''active'' = Active" by code_simp
  ultimately show ?thesis using True by simp
next
  case False
  then show ?thesis by (simp add: bucket_of_def bucket_of_without_rule5_def)
qed

section \<open>When a report is produced\<close>

text \<open>
  For a window that is not negative and does not reach back before \<^verbatim>\<open>datetime.min\<close>,
  and fewer than \<open>2\<^sup>5\<^sup>3\<close> rows, neither the date arithmetic nor a conversion of a count
  overflows, and the numbers are computed.
\<close>

lemma window_start_returns:
  assumes "0 \<le> days" and "days \<le> 999999999"
    and "days * DAY \<le> today" and "today < 3652059 * DAY"
  shows "window_start today days = Inr (today - days * DAY)"
proof -
  have "0 \<le> days * DAY"
    using assms(1) by (simp add: DAY_def)
  with assms show ?thesis
    by (simp add: window_start_def Let_def)
qed

lemma int_to_float_returns:
  assumes "0 \<le> n" and "n < 2 ^ 53"
  shows "int_to_float n = Inr (Fin (of_int n))"
  using assms round64_of_int [of n] by (simp add: int_to_float_def)

lemma den_of_returns:
  assumes "0 \<le> sold" "sold < 2 ^ 53" "0 \<le> pending" "pending < 2 ^ 53"
  shows "\<exists>d. den_of sold pending = Inr d"
  using assms by (simp add: den_of_def int_to_float_returns)

lemma moi_of_returns:
  assumes "0 \<le> active" "active < 2 ^ 53"
  shows "\<exists>m. moi_of active d = Inr m"
proof (cases "flt (Fin 0) d")
  case True
  then have "d \<noteq> Fin 0" by auto
  then have "\<exists>m. truediv (Fin (of_int active)) d = Inr m"
    by (cases d) simp_all
  with True assms show ?thesis
    by (simp add: moi_of_def int_to_float_returns)
next
  case False
  then show ?thesis by (simp add: moi_of_def)
qed

lemma build_docx_returns:
  assumes "0 \<le> days" and "days \<le> 999999999"
    and "days * DAY \<le> today" and "today < 3652059 * DAY"
    and "int (length (frame_rows df)) < 2 ^ 53"
  shows "\<exists>st. build_docx df days today = Inr st"
proof -
  define ps where "ps = map (prep (has_concessions df)) (frame_rows df)"
  have len: "int (length ps) < 2 ^ 53" using assms(5) by (simp add: ps_def)
  have c: "0 \<le> int (length (filter P ps))" "int (length (filter P ps)) < 2 ^ 53" for P
  proof -
    show "0 \<le> int (length (filter P ps))" by simp
    have "int (length (filter P ps)) \<le> int (length ps)"
      unfolding of_nat_le_iff by (rule length_filter_le)
    with len show "int (length (filter P ps)) < 2 ^ 53" by linarith
  qed
  note w = window_start_returns [OF assms(1-4)]
  obtain d where d: "den_of (int (length (filter (is_sold_window (today - days * DAY)) ps)))
      (int (length (filter (\<lambda>p. c_bucket p = Pending) ps))) = Inr d"
    using den_of_returns [OF c c] by blast
  obtain m where m: "moi_of (int (length (filter (\<lambda>p. c_bucket p = Active) ps))) d = Inr m"
    using moi_of_returns [OF c] by blast
  show ?thesis
    unfolding build_docx_def Let_def ps_def [symmetric] w
    by (simp add: d m)
qed

section \<open>Status classifier: the claims\<close>

text \<open>
  C1 (as amended). A missing status (NaN, for which \<^verbatim>\<open>pd.isna\<close> holds) is bucketed
  \<open>Unknown\<close> by the first rule, before any keyword rule. The empty string is not missing
  for \<^verbatim>\<open>pd.isna\<close>: it passes through every keyword rule and is bucketed \<open>Other\<close>.
\<close>

theorem bucket_status_missing:
  "bucket_status None = Unknown \<and> bucket_status (Some '''') = Other"
proof
  show "bucket_status None = Unknown" by (simp add: bucket_status_def)
  show "bucket_status (Some '''') = Other" by code_simp
qed

text \<open>
  C1 as stated fails: the classifier does not return \<open>Unknown\<close> on the empty string.
\<close>

theorem bucket_status_empty_not_unknown: "bucket_status (Some '''') \<noteq> Unknown"
  by code_simp

text \<open>
  C5. A status that contains \<^verbatim>\<open>active\<close> and also \<^verbatim>\<open>pending\<close> or \<^verbatim>\<open>under contract\<close>,
  in any letter case (the key occurs in the lower-cased status), is bucketed \<open>Pending\<close>
  and not \<open>Active\<close>.
\<close>

theorem compound_status_pending:
  assumes "str_contains ''active'' (lower s)"
    and "str_contains ''pending'' (lower s) \<or> str_contains ''under contract'' (lower s)"
  shows "bucket_status (Some s) = Pending \<and> bucket_status (Some s) \<noteq> Active"
proof -
  from assms(2)
  have "str_contains ''pending'' (lower (strip s))
      \<or> str_contains ''under contract'' (lower (strip s))"
    using contains_norm_keep [of "''pending''" s] contains_norm_keep [of "''under contract''" s]
      edge_pending edge_under_contract by auto
  then show ?thesis
    by (simp add: bucket_status_def bucket_of_pending)
qed

text \<open>C5 at the status \<^verbatim>\<open>Active/Under Contract\<close>.\<close>

theorem compound_status_pending_witness:
  "str_contains ''active'' (lower ''Active/Under Contract'')
   \<and> str_contains ''under contract'' (lower ''Active/Under Contract'')
   \<and> bucket_status (Some ''Active/Under Contract'') = Pending
   \<and> bucket_status (Some ''Active/Under Contract'') \<noteq> Active"
proof -
  have 1: "str_contains ''active'' (lower ''Active/Under Contract'')"
    by code_simp
  have 2: "str_contains ''under contract'' (lower ''Active/Under Contract'')"
    by code_simp
  from 2 have 3: "str_contains ''pending'' (lower ''Active/Under Contract'')
      \<or> str_contains ''under contract'' (lower ''Active/Under Contract'')" ..
  show ?thesis
    using 1 2 compound_status_pending [OF 1 3] by simp
qed

text \<open>
  C9. The fifth rule never decides: the classifier without it returns the same bucket on
  every input, missing or not.
\<close>

theorem rule5_redundant: "bucket_status_without_rule5 x = bucket_status x"
  by (cases x)
    (simp_all add: bucket_status_def bucket_status_without_rule5_def bucket_of_rule5)

text \<open>
  C10. A status that contains \<^verbatim>\<open>a/i\<close> in any letter case, and neither \<^verbatim>\<open>pending\<close> nor
  \<^verbatim>\<open>under contract\<close>, is bucketed \<open>Active\<close>: it contains the active key \<^verbatim>\<open>a/\<close>.
\<close>

theorem a_slash_i_active:
  assumes "str_contains ''a/i'' (lower s)"
    and "\<not> str_contains ''pending'' (lower s)"
    and "\<not> str_contains ''under contract'' (lower s)"
  shows "bucket_status (Some s) = Active"
proof -
  let ?t = "lower (strip s)"
  have "str_contains ''a/i'' ?t"
    using assms(1) edge_a_slash_i by (intro contains_norm_keep) simp_all
  then have a: "str_contains ''a/'' ?t"
    by (rule a_slash_i_has_a_slash)
  have p: "\<not> str_contains ''pending'' ?t" and u: "\<not> str_contains ''under contract'' ?t"
    using assms(2,3) contains_norm_raw by blast+
  from a p u have "bucket_of ?t = Active"
    by (simp add: bucket_of_def any_in_def ACTIVE_KEYS_def)
  then show ?thesis by (simp add: bucket_status_def)
qed

text \<open>C10 at the status \<^verbatim>\<open>A/I\<close> with white space around it.\<close>

theorem a_slash_i_active_witness:
  "str_contains ''a/i'' (lower ''  A/I '')
   \<and> \<not> str_contains ''pending'' (lower ''  A/I '')
   \<and> \<not> str_contains ''under contract'' (lower ''  A/I '')
   \<and> bucket_status (Some ''  A/I '') = Active"
proof -
  have 1: "str_contains ''a/i'' (lower ''  A/I '')" by code_simp
  have 2: "\<not> str_contains ''pending'' (lower ''  A/I '')" by code_simp
  have 3: "\<not> str_contains ''under contract'' (lower ''  A/I '')" by code_simp
  show ?thesis
    using 1 2 3 a_slash_i_active [OF 1 2 3] by simp
qed

section \<open>Field normalizer: the claims\<close>



text \<open>
  C2 (as amended). The net price of a row is missing exactly when its close price is
  missing, or the concessions column is present and the row's concessions are missing
  (or both values are the same infinity). So with the column absent it is missing
  exactly when the close price is.
\<close>

theorem net_price_missing_iff:
  "is_nan (net_price has p) \<longleftrightarrow>
     is_nan (c_close_price p) \<or>
     (has \<and> (is_nan (c_concessions p)
             \<or> (c_close_price p = PInf \<and> c_concessions p = PInf)
             \<or> (c_close_price p = NInf \<and> c_concessions p = NInf)))"
  by (auto simp: net_price_def is_nan_fsub)

text \<open>
  C2 as stated fails: with the concessions column present, a row with the close price
  \<^verbatim>\<open>280000\<close> and an empty concessions cell has a missing net price.
\<close>

theorem net_price_missing_with_close_price:
  "\<not> (is_nan (net_price True (prep True
          \<lparr> mls_status = Some ''Closed'', close_date = None, list_price = None,
            close_price = Some ''280000'', seller_concessions = None \<rparr>))
      \<longleftrightarrow> is_nan (c_close_price (prep True
          \<lparr> mls_status = Some ''Closed'', close_date = None, list_price = None,
            close_price = Some ''280000'', seller_concessions = None \<rparr>)))"
  by (simp add: net_price_def prep_def to_num_280000 to_num_None)

section \<open>Window filter: the claims\<close>

text \<open>
  C3. When the start of the window is computed (no overflow), a prepared row is in the
  sold window iff its bucket is \<open>Sold\<close>, its close date is defined and that date is at
  least \<open>today - days\<close> days. The bound is closed: a sold row closed exactly at the bound
  is in, a row closed one day earlier is out, and so is a row with no close date.
\<close>

theorem sold_window_closed_bound:
  assumes "window_start today days = Inr ws"
  shows "(is_sold_window ws p \<longleftrightarrow>
            c_bucket p = Sold \<and> (\<exists>d. c_close_date p = Some d \<and> today - days * DAY \<le> d))
       \<and> (c_bucket p = Sold \<and> c_close_date p = Some (today - days * DAY) \<longrightarrow> is_sold_window ws p)
       \<and> (c_close_date p = Some (today - days * DAY - DAY) \<longrightarrow> \<not> is_sold_window ws p)
       \<and> (c_close_date p = None \<longrightarrow> \<not> is_sold_window ws p)"
proof -
  from assms have ws: "ws = today - days * DAY"
    by (auto simp: window_start_def Let_def split: if_splits)
  have "0 < DAY" by (simp add: DAY_def)
  then show ?thesis
    by (auto simp: is_sold_window_def ws split: option.splits)
qed

text \<open>C3 on day 739000 with a window of 90 days: the bound is day 738910.\<close>

theorem sold_window_closed_bound_witness:
  "window_start (739000 * DAY) 90 = Inr (738910 * DAY)
   \<and> is_sold_window (738910 * DAY) (sold_at (Some (738910 * DAY)))
   \<and> \<not> is_sold_window (738910 * DAY) (sold_at (Some (738909 * DAY)))
   \<and> \<not> is_sold_window (738910 * DAY) (sold_at None)"
proof -
  note w = window_start_scenario
  have a: "c_bucket (sold_at (Some (738910 * DAY))) = Sold
      \<and> c_close_date (sold_at (Some (738910 * DAY))) = Some (739000 * DAY - 90 * DAY)"
    by (simp add: sold_at_def)
  have b: "c_close_date (sold_at (Some (738909 * DAY))) = Some (739000 * DAY - 90 * DAY - DAY)"
    by (simp add: sold_at_def)
  have c: "c_close_date (sold_at None) = None"
    by (simp add: sold_at_def)
  from sold_window_closed_bound [OF w, of "sold_at (Some (738910 * DAY))"]
    sold_window_closed_bound [OF w, of "sold_at (Some (738909 * DAY))"]
    sold_window_closed_bound [OF w, of "sold_at None"] a b c w
  show ?thesis by blast
qed

section \<open>Metrics: the claims\<close>

text \<open>
  C4. In the numbers of a report, the months of inventory are undefined (NaN) iff the
  sold-window count and the pending count are both zero, that is iff the denominator
  \<^verbatim>\<open>sold_window_count / 3.0 + pending_count\<close> is zero; otherwise they are the active count
  divided by that denominator, in floats.
\<close>

theorem moi_undefined_iff:
  assumes "build_docx df days today = Inr st"
  shows "(is_nan (moi st) \<longleftrightarrow> sold_window_count st = 0 \<and> pending_count st = 0)
       \<and> (is_nan (moi st) \<longleftrightarrow>
            den_of (sold_window_count st) (pending_count st) = Inr (Fin 0))
       \<and> (\<not> (sold_window_count st = 0 \<and> pending_count st = 0) \<longrightarrow>
            (\<exists>a d. int_to_float (active_count st) = Inr a
                  \<and> den_of (sold_window_count st) (pending_count st) = Inr d
                  \<and> truediv a d = Inr (moi st)))"
proof -
  from assms obtain ws where ws: "window_start today days = Inr ws"
    by (auto simp: build_docx_def Let_def split: sum.splits)
  define ps where "ps = map (prep (has_concessions df)) (frame_rows df)"
  define sold where "sold = int (length (filter (is_sold_window ws) ps))"
  define pending where "pending = int (length (filter (\<lambda>p. c_bucket p = Pending) ps))"
  define active where "active = int (length (filter (\<lambda>p. c_bucket p = Active) ps))"
  from assms ws have "\<exists>d. den_of sold pending = Inr d \<and> moi_of active d = Inr (moi st)"
    and st: "sold_window_count st = sold" "pending_count st = pending" "active_count st = active"
    by (auto simp: build_docx_def Let_def ps_def sold_def pending_def active_def
        split: sum.splits)
  then obtain d where d: "den_of sold pending = Inr d" and m: "moi_of active d = Inr (moi st)"
    by blast
  have nonneg: "0 \<le> sold" "0 \<le> pending"
    by (simp_all add: sold_def pending_def)
  note sign = den_of_sign [OF nonneg d]
  show ?thesis
  proof (cases "sold = 0 \<and> pending = 0")
    case True
    with sign have "d = Fin 0" by blast
    with moi_of_nan(1) [OF m] True d show ?thesis
      by (simp add: st)
  next
    case False
    with sign have pos: "d = PInf \<or> (\<exists>v. d = Fin v \<and> 0 < v)" by blast
    then have "d \<noteq> Fin 0" by auto
    with moi_of_nan(2) [OF m pos] False d show ?thesis
      by (auto simp: st)
  qed
qed

text \<open>
  C4 on the second dataset: one active, one pending, five sold, so
  \<open>1 / (5 / 3.0 + 1)\<close>, which is \<open>0.37499999999999994\<close>.
\<close>

theorem moi_undefined_iff_witness:
  "build_docx \<lparr> frame_rows = rounding_rows, has_concessions = False \<rparr> 90 (739000 * DAY)
     = Inr rounding_stats
   \<and> \<not> is_nan (moi rounding_stats)
   \<and> den_of (sold_window_count rounding_stats) (pending_count rounding_stats)
       = Inr (Fin (3002399751580331 / 1125899906842624))
   \<and> truediv (Fin 1) (Fin (3002399751580331 / 1125899906842624)) = Inr (moi rounding_stats)
   \<and> moi rounding_stats = Fin (6755399441055743 / 18014398509481984)"
proof -
  have c: "sold_window_count rounding_stats = 5" "pending_count rounding_stats = 1"
    "active_count rounding_stats = 1"
    "moi rounding_stats = Fin (6755399441055743 / 18014398509481984)"
    by (simp_all add: rounding_stats_def)
  from moi_undefined_iff [OF build_docx_rounding]
  have "\<exists>a d. int_to_float 1 = Inr a \<and> den_of 5 1 = Inr d
      \<and> truediv a d = Inr (Fin (6755399441055743 / 18014398509481984))"
    and "\<not> is_nan (moi rounding_stats)"
    by (simp_all add: c)
  then show ?thesis
    using build_docx_rounding by (auto simp: c int_to_float_1 den_of_rounding)
qed

text \<open>
  C7. In the numbers of a report, each of the three counts is between zero and the
  number of rows, and each price range that is defined (neither end is NaN) has its
  smallest value below or equal to its largest.
\<close>

theorem stats_bounds:
  assumes "build_docx df days today = Inr st"
  shows "0 \<le> active_count st \<and> active_count st \<le> int (length (frame_rows df))
       \<and> 0 \<le> pending_count st \<and> pending_count st \<le> int (length (frame_rows df))
       \<and> 0 \<le> sold_window_count st \<and> sold_window_count st \<le> int (length (frame_rows df))
       \<and> (\<not> is_nan (active_min st) \<and> \<not> is_nan (active_max st) \<longrightarrow>
            fle (active_min st) (active_max st))
       \<and> (\<not> is_nan (pending_min st) \<and> \<not> is_nan (pending_max st) \<longrightarrow>
            fle (pending_min st) (pending_max st))
       \<and> (\<not> is_nan (sold_net_min st) \<and> \<not> is_nan (sold_net_max st) \<longrightarrow>
            fle (sold_net_min st) (sold_net_max st))"
proof -
  from assms obtain ws where ws: "window_start today days = Inr ws"
    by (auto simp: build_docx_def Let_def split: sum.splits)
  define ps where "ps = map (prep (has_concessions df)) (frame_rows df)"
  have len: "length ps = length (frame_rows df)"
    by (simp add: ps_def)
  define ap where "ap = map c_list_price (filter (\<lambda>p. c_bucket p = Active) ps)"
  define pp where "pp = map c_list_price (filter (\<lambda>p. c_bucket p = Pending) ps)"
  define sp where "sp = map (net_price (has_concessions df)) (filter (is_sold_window ws) ps)"
  from assms ws have counts:
    "active_count st = int (length (filter (\<lambda>p. c_bucket p = Active) ps))"
    "pending_count st = int (length (filter (\<lambda>p. c_bucket p = Pending) ps))"
    "sold_window_count st = int (length (filter (is_sold_window ws) ps))"
    by (auto simp: build_docx_def Let_def ps_def split: sum.splits)
  from assms ws have ranges:
    "active_min st = (if dropna ap \<noteq> [] then series_min (dropna ap) else NaN)"
    "active_max st = (if dropna ap \<noteq> [] then series_max (dropna ap) else NaN)"
    "pending_min st = (if dropna pp \<noteq> [] then series_min (dropna pp) else NaN)"
    "pending_max st = (if dropna pp \<noteq> [] then series_max (dropna pp) else NaN)"
    "sold_net_min st = (if dropna sp \<noteq> [] then series_min (dropna sp) else NaN)"
    "sold_net_max st = (if dropna sp \<noteq> [] then series_max (dropna sp) else NaN)"
    by (auto simp: build_docx_def Let_def ps_def ap_def pp_def sp_def split: sum.splits)
  have c: "0 \<le> active_count st" "active_count st \<le> int (length (frame_rows df))"
    "0 \<le> pending_count st" "pending_count st \<le> int (length (frame_rows df))"
    "0 \<le> sold_window_count st" "sold_window_count st \<le> int (length (frame_rows df))"
    unfolding counts len [symmetric] by simp_all
  have r: "\<not> is_nan (active_min st) \<and> \<not> is_nan (active_max st) \<longrightarrow>
        fle (active_min st) (active_max st)"
    "\<not> is_nan (pending_min st) \<and> \<not> is_nan (pending_max st) \<longrightarrow>
        fle (pending_min st) (pending_max st)"
    "\<not> is_nan (sold_net_min st) \<and> \<not> is_nan (sold_net_max st) \<longrightarrow>
        fle (sold_net_min st) (sold_net_max st)"
    unfolding ranges by (simp_all add: range_ordered)
  from c r show ?thesis by simp
qed

text \<open>C7 on the worked dataset: three rows, every count is 1, every range is defined.\<close>

theorem stats_bounds_witness:
  "build_docx \<lparr> frame_rows = scenario_rows, has_concessions = True \<rparr> 90 (739000 * DAY)
     = Inr scenario_stats
   \<and> active_count scenario_stats \<le> 3
   \<and> \<not> is_nan (active_min scenario_stats) \<and> \<not> is_nan (active_max scenario_stats)
   \<and> fle (active_min scenario_stats) (active_max scenario_stats)
   \<and> \<not> is_nan (pending_min scenario_stats) \<and> \<not> is_nan (pending_max scenario_stats)
   \<and> fle (pending_min scenario_stats) (pending_max scenario_stats)
   \<and> \<not> is_nan (sold_net_min scenario_stats) \<and> \<not> is_nan (sold_net_max scenario_stats)
   \<and> fle (sold_net_min scenario_stats) (sold_net_max scenario_stats)"
proof -
  have n: "\<not> is_nan (active_min scenario_stats)" "\<not> is_nan (active_max scenario_stats)"
    "\<not> is_nan (pending_min scenario_stats)" "\<not> is_nan (pending_max scenario_stats)"
    "\<not> is_nan (sold_net_min scenario_stats)" "\<not> is_nan (sold_net_max scenario_stats)"
    by (simp_all add: scenario_stats_def)
  have l: "int (length (frame_rows \<lparr> frame_rows = scenario_rows, has_concessions = True \<rparr>)) = 3"
    by (simp add: scenario_rows_def)
  from stats_bounds [OF build_docx_scenario] n l build_docx_scenario
  show ?thesis by simp
qed

text \<open>
  C8. When the concessions column is absent, the sold net price range of a report is the
  range of the plain close prices over the rows in the sold window.
\<close>

theorem sold_net_range_plain:
  assumes "\<not> has_concessions df"
    and "build_docx df days today = Inr st"
    and "window_start today days = Inr ws"
  shows "(sold_net_min st, sold_net_max st) =
           close_price_range ws (map (prep False) (frame_rows df))"
proof -
  define ps where "ps = map (prep False) (frame_rows df)"
  define sp where "sp = map (net_price False) (filter (is_sold_window ws) ps)"
  from assms have
    "sold_net_min st = (if dropna sp \<noteq> [] then series_min (dropna sp) else NaN)"
    "sold_net_max st = (if dropna sp \<noteq> [] then series_max (dropna sp) else NaN)"
    by (auto simp: build_docx_def Let_def ps_def sp_def split: sum.splits)
  moreover have "sp = map c_close_price (filter (is_sold_window ws) ps)"
    unfolding sp_def by (rule map_cong) (auto simp: ps_def net_price_plain)
  ultimately show ?thesis
    by (simp add: close_price_range_def Let_def ps_def)
qed

text \<open>C8 on the worked dataset without its concessions column: the range is 280000 to 280000.\<close>

theorem sold_net_range_plain_witness:
  "\<not> has_concessions \<lparr> frame_rows = scenario_rows, has_concessions = False \<rparr>
   \<and> build_docx \<lparr> frame_rows = scenario_rows, has_concessions = False \<rparr> 90 (739000 * DAY)
       = Inr (scenario_stats \<lparr> sold_net_min := Fin 280000, sold_net_max := Fin 280000 \<rparr>)
   \<and> close_price_range (738910 * DAY) (map (prep False) scenario_rows)
       = (Fin 280000, Fin 280000)"
proof -
  have h: "\<not> has_concessions \<lparr> frame_rows = scenario_rows, has_concessions = False \<rparr>"
    by simp
  from sold_net_range_plain [OF h build_docx_scenario_plain window_start_scenario]
    build_docx_scenario_plain
  show ?thesis by simp
qed

end
